theory Spec2Isabelle
  imports Complex_Main "HOL-Library.Multiset" "HOL-Library.Product_Lexorder" "HOL-Library.Sublist"
begin

section \<open>The discrete-event engine of SimEngine.py\<close>

text \<open>
  The theory embeds class \<open>SimEngine\<close> of \<^verbatim>\<open>src/SimEngine/SimEngine.py\<close>. One
  Python thread is modelled: the lock \<open>dataLock\<close> is reentrant and never contended, so
  \<^verbatim>\<open>with self.dataLock\<close> is the identity. \<^verbatim>\<open>assert\<close> statements are executed (the
  interpreter is not started with \<^verbatim>\<open>-O\<close>). Python integers are unbounded: \<open>int\<close>.
\<close>

subsection \<open>Data\<close>

datatype error =
    AssertionError | IndexError | TypeError | EnvironmentError | AttributeError
  | ZeroDivisionError | OverflowError

text \<open>
  A callback is one of the engine's two private actions or a callable of a collaborator,
  named by a number.
\<close>

datatype cb = ActionEndSim | ActionPauseSim | UserCb nat

text \<open>
  Every tag the source builds is a pair such as \<^verbatim>\<open>(None,'_actionEndSim')\<close> or
  \<^verbatim>\<open>('SimEngine','_actionPauseSim')\<close>; the parameter \<open>uniqueTag\<close> is such a pair or
  \<^verbatim>\<open>None\<close> (its default). A pair is truthy, \<^verbatim>\<open>None\<close> is falsy.
\<close>

type_synonym tag = "string option \<times> string"

type_synonym kwargs = "(string \<times> int) list"

text \<open>The tuple \<^verbatim>\<open>(asn, priority, cb, uniqueTag, kwargs)\<close> of line 191.\<close>

record event =
  ev_asn :: int
  ev_priority :: int
  ev_cb :: cb
  ev_tag :: "tag option"
  ev_kwargs :: kwargs

text \<open>
  What the run thread has called so far: \<open>Dispatched a ev\<close> is the call
  \<^verbatim>\<open>cb(**kwargs)\<close> of line 148 for the popped event \<open>ev\<close> with \<open>self.asn = a\<close> at that
  moment; \<open>StartHook\<close> and \<open>EndHook\<close> are the calls of lines 123 and 152.
\<close>

datatype invocation = Dispatched int event | StartHook cb | EndHook cb

text \<open>
  The attributes set by \<open>__init__\<close> (lines 63 to 70) and by \<open>terminateSimulation\<close>
  (line 210). \<open>pauseSem\<close> is the counter of the semaphore. The last field, \<open>invoked\<close>,
  is not an attribute of the object: it is the history of callback invocations, which
  no operation reads.
\<close>

record engine =
  simPaused :: bool
  goOn :: bool
  asn :: int
  startCb :: "cb list"
  endCb :: "cb list"
  events :: "event list"
  pauseSem :: nat
  asnEndExperiment :: "int option"
  invoked :: "invocation list"

definition init_engine :: engine where
  "init_engine =
     \<lparr>simPaused = False, goOn = True, asn = 0, startCb = [], endCb = [], events = [],
      pauseSem = 0, asnEndExperiment = None, invoked = []\<rparr>"

subsection \<open>removeEvent (lines 193 to 200)\<close>

text \<open>\<^verbatim>\<open>self.events.pop(i)\<close> for an index in range.\<close>

definition list_pop :: "nat \<Rightarrow> 'a list \<Rightarrow> 'a list" where
  "list_pop i xs = take i xs @ drop (Suc i) xs"

definition removable :: "tag option \<Rightarrow> bool \<Rightarrow> int \<Rightarrow> event \<Rightarrow> bool" where
  "removable uniqueTag exceptCurrentASN now ev =
     (ev_tag ev = uniqueTag \<and> \<not> (exceptCurrentASN \<and> ev_asn ev = now))"

function removeEvent_loop :: "tag option \<Rightarrow> bool \<Rightarrow> int \<Rightarrow> nat \<Rightarrow> event list \<Rightarrow> event list" where
  "removeEvent_loop uniqueTag exceptCurrentASN now i evs =
     (if i < length evs then
        (if removable uniqueTag exceptCurrentASN now (evs ! i)
         then removeEvent_loop uniqueTag exceptCurrentASN now i (list_pop i evs)
         else removeEvent_loop uniqueTag exceptCurrentASN now (Suc i) evs)
      else evs)"
  by pat_completeness auto
termination
  by (relation "measure (\<lambda>(uniqueTag, exceptCurrentASN, now, i, evs). length evs - i)")
     (auto simp: list_pop_def)

declare removeEvent_loop.simps [simp del]

definition removeEvent :: "tag option \<Rightarrow> bool \<Rightarrow> engine \<Rightarrow> engine" where
  "removeEvent uniqueTag exceptCurrentASN e =
     e\<lparr>events := removeEvent_loop uniqueTag exceptCurrentASN (asn e) 0 (events e)\<rparr>"

subsection \<open>scheduleAtAsn (lines 173 to 191)\<close>

text \<open>The loop of lines 186 to 188; it returns the final \<open>i\<close>.\<close>

function find_index :: "int \<Rightarrow> int \<Rightarrow> nat \<Rightarrow> event list \<Rightarrow> nat" where
  "find_index a priority i evs =
     (if i < length evs \<and>
         (ev_asn (evs ! i) < a \<or> (ev_asn (evs ! i) = a \<and> ev_priority (evs ! i) \<le> priority))
      then find_index a priority (Suc i) evs
      else i)"
  by pat_completeness auto
termination
  by (relation "measure (\<lambda>(a, priority, i, evs). length evs - i)") auto

declare find_index.simps [simp del]

text \<open>\<^verbatim>\<open>list.insert(i, x)\<close> for \<open>i \<ge> 0\<close>: past the end it appends.\<close>

definition list_insert :: "nat \<Rightarrow> 'a \<Rightarrow> 'a list \<Rightarrow> 'a list" where
  "list_insert i x xs = take i xs @ x # drop i xs"

text \<open>
  \<open>Inl\<close> is an exception raised before any attribute is written. The assertion of line
  177 comes first.
\<close>

definition scheduleAtAsn ::
  "int \<Rightarrow> cb \<Rightarrow> tag option \<Rightarrow> int \<Rightarrow> bool \<Rightarrow> kwargs \<Rightarrow> engine \<Rightarrow> error + engine" where
  "scheduleAtAsn a c uniqueTag priority exceptCurrentASN kw e =
     (if \<not> a > asn e then Inl AssertionError
      else
        let e1 = (if uniqueTag \<noteq> None then removeEvent uniqueTag exceptCurrentASN e else e);
            i = find_index a priority 0 (events e1)
        in Inr (e1\<lparr>events :=
                  list_insert i
                    \<lparr>ev_asn = a, ev_priority = priority, ev_cb = c, ev_tag = uniqueTag,
                     ev_kwargs = kw\<rparr>
                    (events e1)\<rparr>))"


subsection \<open>The other public operations (lines 161 to 233) and the private actions\<close>

definition scheduleAtStart :: "cb \<Rightarrow> engine \<Rightarrow> engine" where
  "scheduleAtStart c e = e\<lparr>startCb := startCb e @ [c]\<rparr>"

definition scheduleAtEnd :: "cb \<Rightarrow> engine \<Rightarrow> engine" where
  "scheduleAtEnd c e = e\<lparr>endCb := endCb e @ [c]\<rparr>"

text \<open>
  What a call leaves behind: it returned, it raised, or the thread waits in
  \<^verbatim>\<open>pauseSem.acquire()\<close>; in each case with the attributes as they are at that moment.
\<close>

datatype status = Normal | Raised error | Blocked

type_synonym outcome = "status \<times> engine"

definition of_sum :: "engine \<Rightarrow> error + engine \<Rightarrow> outcome" where
  "of_sum e r = (case r of Inl err \<Rightarrow> (Raised err, e) | Inr e' \<Rightarrow> (Normal, e'))"

text \<open>Line 210 writes \<open>asnEndExperiment\<close> before \<open>scheduleAtAsn\<close> can raise.\<close>

definition terminateSimulation :: "int \<Rightarrow> engine \<Rightarrow> outcome" where
  "terminateSimulation delay e =
     (let e1 = e\<lparr>asnEndExperiment := Some (asn e + delay)\<rparr>
      in of_sum e1
           (scheduleAtAsn (asn e1 + delay) ActionEndSim (Some (None, ''_actionEndSim'')) 0 True []
              e1))"

definition pauseAtAsn :: "int \<Rightarrow> engine \<Rightarrow> error + engine" where
  "pauseAtAsn a e =
     (if \<not> simPaused e
      then scheduleAtAsn a ActionPauseSim (Some (Some ''SimEngine'', ''_actionPauseSim'')) 0 True []
             e
      else Inr e)"

definition getAsn :: "engine \<Rightarrow> int" where
  "getAsn e = asn e"

text \<open>
  \<^verbatim>\<open>Semaphore.acquire()\<close> takes one unit when the counter is positive and waits
  otherwise; \<^verbatim>\<open>release()\<close> adds one unit.
\<close>

definition actionPauseSim :: "engine \<Rightarrow> outcome" where
  "actionPauseSim e =
     (if \<not> simPaused e then
        (let e1 = e\<lparr>simPaused := True\<rparr>
         in if 0 < pauseSem e1 then (Normal, e1\<lparr>pauseSem := pauseSem e1 - 1\<rparr>)
            else (Blocked, e1))
      else (Normal, e))"

definition actionResumeSim :: "engine \<Rightarrow> engine" where
  "actionResumeSim e =
     (if simPaused e then e\<lparr>simPaused := False, pauseSem := pauseSem e + 1\<rparr> else e)"

definition play :: "engine \<Rightarrow> engine" where
  "play e = actionResumeSim e"

definition actionEndSim :: "engine \<Rightarrow> engine" where
  "actionEndSim e = e\<lparr>goOn := False\<rparr>"

subsection \<open>Callbacks\<close>

text \<open>
  A callable of a collaborator acts on the engine through its public operations. It is
  modelled by the calls it makes, in order, which may depend on its keyword arguments
  and on the clock it reads with \<open>getAsn\<close>: a \<open>prog\<close> gives them for each callable. An
  exception raised by one of the calls is not caught by the callable. \<open>scheduleIn\<close>
  (lines 165 to 171, modelled below) only computes a time and calls \<open>scheduleAtAsn\<close>:
  a callable that uses it appears here with the time it computed.
\<close>

datatype call =
    ScheduleAtAsn int cb "tag option" int bool kwargs
  | RemoveEvent "tag option" bool
  | ScheduleAtStart cb
  | ScheduleAtEnd cb
  | TerminateSimulation int
  | PauseAtAsn int
  | Play

type_synonym prog = "nat \<Rightarrow> kwargs \<Rightarrow> int \<Rightarrow> call list"

fun exec_call :: "call \<Rightarrow> engine \<Rightarrow> outcome" where
  "exec_call (ScheduleAtAsn a c uniqueTag priority exceptCurrentASN kw) e =
     of_sum e (scheduleAtAsn a c uniqueTag priority exceptCurrentASN kw e)"
| "exec_call (RemoveEvent uniqueTag exceptCurrentASN) e =
     (Normal, removeEvent uniqueTag exceptCurrentASN e)"
| "exec_call (ScheduleAtStart c) e = (Normal, scheduleAtStart c e)"
| "exec_call (ScheduleAtEnd c) e = (Normal, scheduleAtEnd c e)"
| "exec_call (TerminateSimulation delay) e = terminateSimulation delay e"
| "exec_call (PauseAtAsn a) e = of_sum e (pauseAtAsn a e)"
| "exec_call Play e = (Normal, play e)"

fun exec_calls :: "call list \<Rightarrow> engine \<Rightarrow> outcome" where
  "exec_calls [] e = (Normal, e)"
| "exec_calls (c # cs) e =
     (let (st, e') = exec_call c e in if st = Normal then exec_calls cs e' else (st, e'))"

text \<open>
  \<^verbatim>\<open>cb(**kwargs)\<close>. The private actions take no keyword argument: a non-empty
  \<open>kwargs\<close> is a \<open>TypeError\<close> at the call.
\<close>

definition invoke :: "prog \<Rightarrow> cb \<Rightarrow> kwargs \<Rightarrow> engine \<Rightarrow> outcome" where
  "invoke P c kw e =
     (case c of
        ActionEndSim \<Rightarrow> if kw = [] then (Normal, actionEndSim e) else (Raised TypeError, e)
      | ActionPauseSim \<Rightarrow> if kw = [] then actionPauseSim e else (Raised TypeError, e)
      | UserCb n \<Rightarrow> exec_calls (P n kw (asn e)) e)"

subsection \<open>The loops as list functions, and what a call leaves unchanged\<close>

lemma removeEvent_loop_filter:
  "removeEvent_loop tg exc now i evs =
     take i evs @ filter (\<lambda>ev. \<not> removable tg exc now ev) (drop i evs)"
proof (induction tg exc now i evs rule: removeEvent_loop.induct)
  case (1 tg exc now i evs)
  show ?case
  proof (cases "i < length evs")
    case False
    then show ?thesis by (subst removeEvent_loop.simps) simp
  next
    case True
    then have d: "drop i evs = evs ! i # drop (Suc i) evs"
      by (simp add: Cons_nth_drop_Suc)
    show ?thesis
    proof (cases "removable tg exc now (evs ! i)")
      case True
      with \<open>i < length evs\<close> "1.IH"(1) d show ?thesis
        by (subst removeEvent_loop.simps) (simp add: list_pop_def)
    next
      case False
      with \<open>i < length evs\<close> "1.IH"(2) d show ?thesis
        by (subst removeEvent_loop.simps) (simp add: take_Suc_conv_app_nth)
    qed
  qed
qed

lemma events_removeEvent:
  "events (removeEvent tg exc e) = filter (\<lambda>ev. \<not> removable tg exc (asn e) ev) (events e)"
  by (simp add: removeEvent_def removeEvent_loop_filter)

lemma frame_removeEvent [simp]:
  "asn (removeEvent tg exc e) = asn e"
  "goOn (removeEvent tg exc e) = goOn e"
  "simPaused (removeEvent tg exc e) = simPaused e"
  "pauseSem (removeEvent tg exc e) = pauseSem e"
  "startCb (removeEvent tg exc e) = startCb e"
  "endCb (removeEvent tg exc e) = endCb e"
  "asnEndExperiment (removeEvent tg exc e) = asnEndExperiment e"
  "invoked (removeEvent tg exc e) = invoked e"
  by (simp_all add: removeEvent_def)

text \<open>The key the loop of lines 186 to 188 compares: time first, then priority.\<close>

definition ev_key :: "event \<Rightarrow> int \<times> int" where
  "ev_key ev = (ev_asn ev, ev_priority ev)"

lemma find_index_takeWhile:
  "find_index a p i evs = i + length (takeWhile (\<lambda>ev. ev_key ev \<le> (a, p)) (drop i evs))"
proof (induction a p i evs rule: find_index.induct)
  case (1 a p i evs)
  show ?case
  proof (cases "i < length evs")
    case False
    then show ?thesis by (subst find_index.simps) simp
  next
    case True
    then have d: "drop i evs = evs ! i # drop (Suc i) evs"
      by (simp add: Cons_nth_drop_Suc)
    from True "1.IH" d show ?thesis
      by (subst find_index.simps) (auto simp: ev_key_def)
  qed
qed

text \<open>Where line 191 puts a new event: behind every event whose key is not larger.\<close>

definition enqueue :: "event \<Rightarrow> event list \<Rightarrow> event list" where
  "enqueue x q =
     takeWhile (\<lambda>ev. ev_key ev \<le> ev_key x) q @ x # dropWhile (\<lambda>ev. ev_key ev \<le> ev_key x) q"

lemma list_insert_find_index:
  "list_insert (find_index a p 0 q) x q =
     takeWhile (\<lambda>ev. ev_key ev \<le> (a, p)) q @ x # dropWhile (\<lambda>ev. ev_key ev \<le> (a, p)) q"
  by (simp add: list_insert_def find_index_takeWhile takeWhile_eq_take [symmetric]
      dropWhile_eq_drop [symmetric])

definition mk_event :: "int \<Rightarrow> int \<Rightarrow> cb \<Rightarrow> tag option \<Rightarrow> kwargs \<Rightarrow> event" where
  "mk_event a p c tg kw =
     \<lparr>ev_asn = a, ev_priority = p, ev_cb = c, ev_tag = tg, ev_kwargs = kw\<rparr>"

text \<open>What lines 180 and 181 leave of the queue.\<close>

definition untag :: "tag option \<Rightarrow> bool \<Rightarrow> int \<Rightarrow> event list \<Rightarrow> event list" where
  "untag tg exc now q = (if tg \<noteq> None then filter (\<lambda>ev. \<not> removable tg exc now ev) q else q)"

lemma scheduleAtAsn_Inr:
  assumes "scheduleAtAsn a c tg p exc kw e = Inr e'"
  shows "asn e < a"
    and "e' = e\<lparr>events := enqueue (mk_event a p c tg kw) (untag tg exc (asn e) (events e))\<rparr>"
  using assms
  by (auto simp: scheduleAtAsn_def Let_def enqueue_def mk_event_def untag_def ev_key_def
      list_insert_find_index events_removeEvent removeEvent_def removeEvent_loop_filter
      split: if_splits)

lemma scheduleAtAsn_Inl:
  "scheduleAtAsn a c tg p exc kw e = Inl err \<longleftrightarrow> err = AssertionError \<and> a \<le> asn e"
  by (auto simp: scheduleAtAsn_def Let_def)


text \<open>The events of a queue that are due at a given time.\<close>

definition due :: "int \<Rightarrow> event list \<Rightarrow> event list" where
  "due now q = filter (\<lambda>ev. ev_asn ev = now) q"

lemma due_enqueue: "ev_asn x \<noteq> now \<Longrightarrow> due now (enqueue x q) = due now q"
proof -
  assume "ev_asn x \<noteq> now"
  then have "due now (enqueue x q) =
      filter (\<lambda>ev. ev_asn ev = now) (takeWhile (\<lambda>ev. ev_key ev \<le> ev_key x) q) @
      filter (\<lambda>ev. ev_asn ev = now) (dropWhile (\<lambda>ev. ev_key ev \<le> ev_key x) q)"
    by (simp add: due_def enqueue_def)
  also have "\<dots> = due now q"
    unfolding due_def by (metis filter_append takeWhile_dropWhile_id)
  finally show ?thesis .
qed

lemma due_untag: "subseq (due now (untag tg exc now' q)) (due now q)"
proof (cases "tg \<noteq> None")
  case True
  have "due now (filter (\<lambda>ev. \<not> removable tg exc now' ev) q) =
        filter (\<lambda>ev. \<not> removable tg exc now' ev) (due now q)"
    by (simp add: due_def conj_commute)
  with True show ?thesis by (simp add: untag_def)
next
  case False
  then show ?thesis by (simp add: untag_def)
qed

lemma due_scheduled:
  assumes "scheduleAtAsn a c tg p exc kw e = Inr e'"
  shows "subseq (due (asn e) (events e')) (due (asn e) (events e))"
proof -
  from scheduleAtAsn_Inr [OF assms]
  have "asn e < a"
    and "events e' = enqueue (mk_event a p c tg kw) (untag tg exc (asn e) (events e))"
    by simp_all
  then show ?thesis by (simp add: due_enqueue mk_event_def due_untag)
qed

lemma frame_scheduled:
  assumes "scheduleAtAsn a c tg p exc kw e = Inr e'"
  shows "asn e' = asn e" and "invoked e' = invoked e" and "goOn e' = goOn e"
    and "simPaused e' = simPaused e" and "pauseSem e' = pauseSem e"
    and "startCb e' = startCb e" and "endCb e' = endCb e"
    and "asnEndExperiment e' = asnEndExperiment e"
  using scheduleAtAsn_Inr(2) [OF assms] by simp_all

lemma exec_call_frame:
  assumes "exec_call c e = (st, e')"
  shows "asn e' = asn e \<and> invoked e' = invoked e \<and> goOn e' = goOn e \<and>
         subseq (due (asn e) (events e')) (due (asn e) (events e))"
proof (cases c)
  case (ScheduleAtAsn a c' tg p exc kw)
  show ?thesis
  proof (cases "scheduleAtAsn a c' tg p exc kw e")
    case (Inl err)
    with assms ScheduleAtAsn show ?thesis by (simp add: of_sum_def)
  next
    case (Inr e1)
    with assms ScheduleAtAsn have "e' = e1" by (simp add: of_sum_def)
    with frame_scheduled [OF Inr] due_scheduled [OF Inr] show ?thesis by simp
  qed
next
  case (RemoveEvent tg exc)
  with assms have e': "e' = removeEvent tg exc e" by simp
  have "due (asn e) (filter (\<lambda>ev. \<not> removable tg exc (asn e) ev) (events e)) =
        filter (\<lambda>ev. \<not> removable tg exc (asn e) ev) (due (asn e) (events e))"
    by (simp add: due_def conj_commute)
  with e' show ?thesis by (simp add: events_removeEvent)
next
  case (ScheduleAtStart c')
  with assms show ?thesis by (auto simp: scheduleAtStart_def)
next
  case (ScheduleAtEnd c')
  with assms show ?thesis by (auto simp: scheduleAtEnd_def)
next
  case (TerminateSimulation d)
  let ?e1 = "e\<lparr>asnEndExperiment := Some (asn e + d)\<rparr>"
  show ?thesis
  proof (cases "scheduleAtAsn (asn e + d) ActionEndSim (Some (None, ''_actionEndSim'')) 0 True [] ?e1")
    case (Inl err)
    with assms TerminateSimulation show ?thesis
      by (auto simp: terminateSimulation_def of_sum_def Let_def)
  next
    case (Inr e2)
    with assms TerminateSimulation have "e' = e2"
      by (simp add: terminateSimulation_def of_sum_def Let_def)
    with frame_scheduled [OF Inr] due_scheduled [OF Inr] show ?thesis by simp
  qed
next
  case (PauseAtAsn a)
  show ?thesis
  proof (cases "simPaused e")
    case True
    with assms PauseAtAsn show ?thesis by (simp add: pauseAtAsn_def of_sum_def)
  next
    case False
    show ?thesis
    proof (cases "scheduleAtAsn a ActionPauseSim (Some (Some ''SimEngine'', ''_actionPauseSim'')) 0 True [] e")
      case (Inl err)
      with assms PauseAtAsn False show ?thesis by (simp add: pauseAtAsn_def of_sum_def)
    next
      case (Inr e2)
      with assms PauseAtAsn False have "e' = e2" by (simp add: pauseAtAsn_def of_sum_def)
      with frame_scheduled [OF Inr] due_scheduled [OF Inr] show ?thesis by simp
    qed
  qed
next
  case Play
  with assms show ?thesis by (auto simp: play_def actionResumeSim_def split: if_splits)
qed

lemma exec_calls_frame:
  "exec_calls cs e = (st, e') \<Longrightarrow>
     asn e' = asn e \<and> invoked e' = invoked e \<and> goOn e' = goOn e \<and>
     subseq (due (asn e) (events e')) (due (asn e) (events e))"
proof (induction cs arbitrary: e)
  case Nil
  then show ?case by simp
next
  case (Cons c cs)
  obtain st1 e1 where c1: "exec_call c e = (st1, e1)" by (cases "exec_call c e")
  note f1 = exec_call_frame [OF c1]
  show ?case
  proof (cases "st1 = Normal")
    case False
    with Cons.prems c1 f1 show ?thesis by simp
  next
    case True
    with Cons.prems c1 have "exec_calls cs e1 = (st, e')" by simp
    from Cons.IH [OF this] f1 show ?thesis
      by (auto intro: subseq_order.trans)
  qed
qed

lemma invoke_frame:
  assumes "invoke P c kw e = (st, e')"
  shows "asn e' = asn e" and "invoked e' = invoked e"
    and "subseq (due (asn e) (events e')) (due (asn e) (events e))"
  using assms exec_calls_frame [of "P n kw (asn e)" e st e' for n]
  by (auto simp: invoke_def actionEndSim_def actionPauseSim_def Let_def
      split: cb.splits if_splits)

lemma mset_enqueue: "mset (enqueue x q) = add_mset x (mset q)"
proof -
  have "mset (enqueue x q) =
        add_mset x (mset (takeWhile (\<lambda>ev. ev_key ev \<le> ev_key x) q @
                          dropWhile (\<lambda>ev. ev_key ev \<le> ev_key x) q))"
    unfolding enqueue_def by (simp only: mset_append mset.simps) simp
  then show ?thesis by (simp only: takeWhile_dropWhile_id)
qed

lemma filter_enqueue_single:
  assumes "P x" and "\<forall>y\<in>set q. \<not> P y"
  shows "filter P (enqueue x q) = [x]"
proof -
  from assms(2) have "filter P (takeWhile (\<lambda>ev. ev_key ev \<le> ev_key x) q) = []"
    and "filter P (dropWhile (\<lambda>ev. ev_key ev \<le> ev_key x) q) = []"
    by (auto simp: filter_empty_conv dest: set_takeWhileD set_dropWhileD)
  with assms(1) show ?thesis by (simp add: enqueue_def)
qed

lemma scheduleAtAsn_tagged:
  assumes "scheduleAtAsn a c (Some t) p exc kw e = Inr e'"
  shows "filter (\<lambda>ev. ev_tag ev = Some t \<and> \<not> (exc \<and> ev_asn ev = asn e)) (events e') =
           [mk_event a p c (Some t) kw]"
    and "mset (events e') =
           add_mset (mk_event a p c (Some t) kw)
             (mset (filter (\<lambda>ev. \<not> (ev_tag ev = Some t \<and> \<not> (exc \<and> ev_asn ev = asn e)))
                (events e)))"
proof -
  let ?R = "\<lambda>ev. ev_tag ev = Some t \<and> \<not> (exc \<and> ev_asn ev = asn e)"
  from scheduleAtAsn_Inr [OF assms]
  have a: "asn e < a"
    and ev: "events e' = enqueue (mk_event a p c (Some t) kw) (filter (\<lambda>ev. \<not> ?R ev) (events e))"
    by (simp_all add: untag_def removable_def)
  from a have "?R (mk_event a p c (Some t) kw)" by (simp add: mk_event_def)
  then show "filter ?R (events e') = [mk_event a p c (Some t) kw]"
    unfolding ev by (rule filter_enqueue_single) simp
  from ev show "mset (events e') =
      add_mset (mk_event a p c (Some t) kw) (mset (filter (\<lambda>ev. \<not> ?R ev) (events e)))"
    by (simp add: mset_enqueue)
qed

subsection \<open>The run loop (lines 126 to 148)\<close>

text \<open>
  The inner loop of lines 144 to 148. \<^verbatim>\<open>self.events[0]\<close> on an empty list raises
  \<open>IndexError\<close>. The loop ends: a callback cannot add an event that is due now
  (\<open>invoke_frame\<close>), and each round pops one.
\<close>

function batch :: "prog \<Rightarrow> engine \<Rightarrow> outcome" where
  "batch P e =
     (case events e of
        [] \<Rightarrow> (Raised IndexError, e)
      | ev # rest \<Rightarrow>
          if ev_asn ev \<noteq> asn e then (Normal, e)
          else
            (let (st, e') =
                   invoke P (ev_cb ev) (ev_kwargs ev)
                     (e\<lparr>events := rest, invoked := invoked e @ [Dispatched (asn e) ev]\<rparr>)
             in if st = Normal then batch P e' else (st, e')))"
  by pat_completeness auto
termination
proof (relation "measure (\<lambda>(P, e). length (due (asn e) (events e)))")
  show "wf (measure (\<lambda>(P, e). length (due (asn e) (events e))))" by simp
next
  fix P :: prog and e :: engine and ev rest x st e'
  assume ev: "events e = ev # rest" and now: "\<not> ev_asn ev \<noteq> asn e"
    and x: "x = invoke P (ev_cb ev) (ev_kwargs ev)
                  (e\<lparr>events := rest, invoked := invoked e @ [Dispatched (asn e) ev]\<rparr>)"
    and st: "(st, e') = x"
  from x st have
    inv: "invoke P (ev_cb ev) (ev_kwargs ev)
            (e\<lparr>events := rest, invoked := invoked e @ [Dispatched (asn e) ev]\<rparr>) = (st, e')"
    by simp
  from invoke_frame(1,3) [OF inv]
  have "asn e' = asn e" and "subseq (due (asn e) (events e')) (due (asn e) rest)"
    by simp_all
  then have "length (due (asn e') (events e')) \<le> length (due (asn e) rest)"
    by (simp add: list_emb_length)
  also from ev now have "\<dots> < length (due (asn e) (events e))"
    by (simp add: due_def)
  finally show "((P, e'), (P, e)) \<in> measure (\<lambda>(P, e). length (due (asn e) (events e)))"
    by simp
qed

declare batch.simps [simp del]

text \<open>
  The outer loop of lines 126 to 141, with fuel for the number of times the condition
  of line 126 is tested: callbacks can keep the queue filled for ever. \<open>None\<close> is a
  loop that has not ended within the fuel. Line 137 subscripts the tag of the first
  event: \<open>TypeError\<close> when it is \<^verbatim>\<open>None\<close>.
\<close>

fun run_loop :: "prog \<Rightarrow> nat \<Rightarrow> engine \<Rightarrow> outcome option" where
  "run_loop P 0 e = None"
| "run_loop P (Suc n) e =
     (if \<not> goOn e then Some (Normal, e)
      else
        (case events e of
           [] \<Rightarrow> Some (Normal, e)
         | ev # rest \<Rightarrow>
             (case ev_tag ev of
                None \<Rightarrow> Some (Raised TypeError, e)
              | Some c \<Rightarrow>
                  if snd c \<noteq> ''_actionPauseSim'' \<and> \<not> ev_asn ev \<ge> asn e
                  then Some (Raised AssertionError, e)
                  else
                    (let (st, e') = batch P (e\<lparr>asn := ev_asn ev\<rparr>)
                     in if st = Normal then run_loop P n e' else Some (st, e')))))"

subsection \<open>run (lines 107 to 155)\<close>

text \<open>
  The loops of lines 122 to 123 and 151 to 152. A \<^verbatim>\<open>for\<close> over a list reads it by
  index and sees what a hook appends to it meanwhile (\<^verbatim>\<open>+=\<close> extends the list in
  place), so the loop can go on for ever: it has fuel. A hook is called without
  arguments.
\<close>

fun call_hooks ::
  "prog \<Rightarrow> (engine \<Rightarrow> cb list) \<Rightarrow> (cb \<Rightarrow> invocation) \<Rightarrow> nat \<Rightarrow> nat \<Rightarrow> engine \<Rightarrow> outcome option" where
  "call_hooks P hooks mk 0 i e = None"
| "call_hooks P hooks mk (Suc n) i e =
     (if i < length (hooks e) then
        (let (st, e') = invoke P (hooks e ! i) [] (e\<lparr>invoked := invoked e @ [mk (hooks e ! i)]\<rparr>)
         in if st = Normal then call_hooks P hooks mk n (Suc i) e' else Some (st, e'))
      else Some (Normal, e))"

text \<open>
  The settings that \<open>run\<close> and \<open>scheduleIn\<close> read from the \<open>SimSettings\<close>
  singleton, which is not part of the engine. \<open>slotDuration\<close> is the number the
  setting holds, an integer or a float.
\<close>

record settings =
  secjoin_enabled :: bool
  slotframeLength :: int
  exec_numSlotframesPerRun :: int
  slotDuration :: rat

text \<open>
  \<open>run\<close> with fuel \<open>n\<close> for each of its three loops. An exception leaves \<open>run\<close> at
  once: the end hooks are called only when the loop of lines 126 to 148 has ended.
\<close>

definition run :: "prog \<Rightarrow> settings \<Rightarrow> nat \<Rightarrow> engine \<Rightarrow> outcome option" where
  "run P cfg n e =
     (case (if \<not> secjoin_enabled cfg
            then scheduleAtAsn (slotframeLength cfg * exec_numSlotframesPerRun cfg) ActionEndSim
                   (Some (None, ''_actionEndSim'')) 0 True [] e
            else Inr e) of
        Inl err \<Rightarrow> Some (Raised err, e)
      | Inr e1 \<Rightarrow>
          (case call_hooks P startCb StartHook n 0 e1 of
             None \<Rightarrow> None
           | Some (st2, e2) \<Rightarrow>
               if st2 \<noteq> Normal then Some (st2, e2)
               else
                 (case run_loop P n e2 of
                    None \<Rightarrow> None
                  | Some (st3, e3) \<Rightarrow>
                      if st3 \<noteq> Normal then Some (st3, e3)
                      else call_hooks P endCb EndHook n 0 e3)))"

text \<open>What one batch calls: events that were due when it began, in the order of the queue.\<close>

lemma batch_dispatch:
  "batch P e = (st, e') \<Longrightarrow>
     asn e' = asn e \<and>
     (\<exists>ds. invoked e' = invoked e @ map (Dispatched (asn e)) ds \<and>
           subseq ds (due (asn e) (events e)))"
proof (induction P e arbitrary: st e' rule: batch.induct)
  case (1 P e)
  show ?case
  proof (cases "events e")
    case Nil
    with "1.prems" show ?thesis by (subst (asm) batch.simps) auto
  next
    case (Cons ev rest)
    show ?thesis
    proof (cases "ev_asn ev \<noteq> asn e")
      case True
      with Cons "1.prems" show ?thesis by (subst (asm) batch.simps) auto
    next
      case False
      let ?e0 = "e\<lparr>events := rest, invoked := invoked e @ [Dispatched (asn e) ev]\<rparr>"
      obtain st1 e1 where inv: "invoke P (ev_cb ev) (ev_kwargs ev) ?e0 = (st1, e1)"
        by (cases "invoke P (ev_cb ev) (ev_kwargs ev) ?e0")
      from invoke_frame [OF inv]
      have f: "asn e1 = asn e" "invoked e1 = invoked e @ [Dispatched (asn e) ev]"
        "subseq (due (asn e) (events e1)) (due (asn e) rest)"
        by simp_all
      from Cons False have d: "due (asn e) (events e) = ev # due (asn e) rest"
        by (simp add: due_def)
      show ?thesis
      proof (cases "st1 = Normal")
        case True
        with Cons False inv "1.prems" have b: "batch P e1 = (st, e')"
          by (subst (asm) batch.simps) simp
        from "1.IH" [OF Cons False _ _ True b, of "(st1, e1)"] inv
        obtain ds where ds: "asn e' = asn e1" "invoked e' = invoked e1 @ map (Dispatched (asn e1)) ds"
          "subseq ds (due (asn e1) (events e1))"
          by auto
        from ds(3) f have "subseq (ev # ds) (ev # due (asn e) rest)"
          by (auto intro: subseq_order.trans)
        with ds f d show ?thesis
          by (intro conjI exI [of _ "ev # ds"]) simp_all
      next
        case False
        with Cons \<open>\<not> ev_asn ev \<noteq> asn e\<close> inv "1.prems" have "st = st1" "e' = e1"
          by (subst (asm) batch.simps, simp)+
        with f d show ?thesis
          by (intro conjI exI [of _ "[ev]"]) simp_all
      qed
    qed
  qed
qed

subsection \<open>scheduleIn (lines 165 to 171)\<close>

text \<open>
  Line 169 computes in Python floats, which are IEEE 754 doubles: a significand of 53
  bits, a unit in the last place between \<open>pow2 (- 1074)\<close> and \<open>pow2 971\<close>, and every result
  rounded to the nearest double, a tie going to the even significand. A finite double
  is a rational number. \<open>fl x\<close> is the double nearest to \<open>x\<close>, and \<open>None\<close> when the
  rounded value is out of range, where the operation gives an infinity.
\<close>

definition pow2 :: "int \<Rightarrow> rat" where
  "pow2 d = (if 0 \<le> d then 2 ^ nat d else 1 / 2 ^ nat (- d))"

text \<open>The number of binary digits of a positive integer.\<close>

function bits :: "int \<Rightarrow> int" where
  "bits n = (if n \<le> 0 then 0 else 1 + bits (n div 2))"
  by pat_completeness auto
termination
  by (relation "measure nat") auto

declare bits.simps [simp del]

text \<open>For \<open>x \<noteq> 0\<close>, the exponent \<open>d\<close> with \<open>pow2 d \<le> \<bar>x\<bar> < pow2 (d + 1)\<close>.\<close>

definition ilog2 :: "rat \<Rightarrow> int" where
  "ilog2 x =
     (let (p, q) = quotient_of \<bar>x\<bar>;
          d = bits p - bits q
      in if pow2 d \<le> \<bar>x\<bar> then d else d - 1)"

definition round_half_even :: "rat \<Rightarrow> int" where
  "round_half_even x =
     (let f = \<lfloor>x\<rfloor>; r = x - of_int f
      in if r < 1 / 2 then f else if 1 / 2 < r then f + 1 else if even f then f else f + 1)"

definition dbl_overflow :: rat where
  "dbl_overflow = 2 ^ 1024"

lemma dbl_overflow_code [code]: "dbl_overflow = (2 ^ 32) ^ 32"
  by (simp add: dbl_overflow_def flip: power_mult)

definition fl :: "rat \<Rightarrow> rat option" where
  "fl x =
     (if x = 0 then Some 0
      else
        (let e = max (ilog2 x) (- 1022);
             u = pow2 (e - 52);
             y = of_int (round_half_even (x / u)) * u
         in if dbl_overflow \<le> \<bar>y\<bar> then None else Some y))"

text \<open>
  \<^verbatim>\<open>float(x)\<close> for a number \<open>x\<close>, which raises when an integer is too large;
  \<^verbatim>\<open>a / b\<close> and \<^verbatim>\<open>a + b\<close> on floats, which give an infinity on overflow; and
  \<^verbatim>\<open>int(x)\<close>, which truncates toward zero and raises on an infinity.
\<close>

definition py_float :: "rat \<Rightarrow> error + rat" where
  "py_float x = (case fl x of None \<Rightarrow> Inl OverflowError | Some y \<Rightarrow> Inr y)"

definition float_div :: "rat \<Rightarrow> rat \<Rightarrow> error + rat option" where
  "float_div a b = (if b = 0 then Inl ZeroDivisionError else Inr (fl (a / b)))"

definition float_add :: "rat \<Rightarrow> rat option \<Rightarrow> rat option" where
  "float_add a b = (case b of None \<Rightarrow> None | Some y \<Rightarrow> fl (a + y))"

definition py_int :: "rat option \<Rightarrow> error + int" where
  "py_int x =
     (case x of
        None \<Rightarrow> Inl OverflowError
      | Some y \<Rightarrow> Inr (if 0 \<le> y then \<lfloor>y\<rfloor> else \<lceil>y\<rceil>))"

text \<open>
  The value of \<open>asn\<close> on line 169, for a delay and a slot duration that are numbers.
  The integer \<open>self.asn\<close> is converted when it is added to the float.
\<close>

definition scheduleIn_asn :: "int \<Rightarrow> rat \<Rightarrow> rat \<Rightarrow> error + int" where
  "scheduleIn_asn now delay slot =
     (case py_float delay of
        Inl err \<Rightarrow> Inl err
      | Inr d \<Rightarrow>
          (case py_float slot of
             Inl err \<Rightarrow> Inl err
           | Inr s \<Rightarrow>
               (case float_div d s of
                  Inl err \<Rightarrow> Inl err
                | Inr q \<Rightarrow>
                    (case py_float (of_int now) of
                       Inl err \<Rightarrow> Inl err
                     | Inr a \<Rightarrow> py_int (float_add a q)))))"

definition scheduleIn ::
  "rat \<Rightarrow> cb \<Rightarrow> tag option \<Rightarrow> int \<Rightarrow> bool \<Rightarrow> kwargs \<Rightarrow> settings \<Rightarrow> engine \<Rightarrow> error + engine" where
  "scheduleIn delay c uniqueTag priority exceptCurrentASN kw cfg e =
     (case scheduleIn_asn (asn e) delay (slotDuration cfg) of
        Inl err \<Rightarrow> Inl err
      | Inr a \<Rightarrow> scheduleAtAsn a c uniqueTag priority exceptCurrentASN kw e)"

subsection \<open>The singleton (lines 38 to 103)\<close>

text \<open>
  Python looks an attribute up in the \<^verbatim>\<open>__dict__\<close> of the instance first and in the
  class next, and an assignment \<^verbatim>\<open>self.x = v\<close> always writes the \<^verbatim>\<open>__dict__\<close> of the
  instance. So the model keeps both: the two class attributes of lines 38 and 39, and
  for each object the entries \<open>_instance\<close> and \<open>_init\<close> of its \<^verbatim>\<open>__dict__\<close>, when
  they are there, beside the engine's attributes. Objects are named by their index in
  the heap.
\<close>

record instance_dict =
  d_instance :: "nat option option"
  d_init :: "bool option"
  d_engine :: "engine option"

definition empty_dict :: instance_dict where
  "empty_dict = \<lparr>d_instance = None, d_init = None, d_engine = None\<rparr>"

record process =
  cls_instance :: "nat option"
  cls_init :: bool
  heap :: "instance_dict list"

text \<open>The class as the \<^verbatim>\<open>class\<close> statement leaves it (lines 38 and 39).\<close>

definition start_process :: process where
  "start_process = \<lparr>cls_instance = None, cls_init = False, heap = []\<rparr>"

definition obj :: "process \<Rightarrow> nat \<Rightarrow> instance_dict" where
  "obj w r = (if r < length (heap w) then heap w ! r else empty_dict)"

text \<open>\<^verbatim>\<open>self._init\<close> and \<^verbatim>\<open>self._instance\<close>, read.\<close>

definition get_init :: "process \<Rightarrow> nat \<Rightarrow> bool" where
  "get_init w r = (case d_init (obj w r) of Some b \<Rightarrow> b | None \<Rightarrow> cls_init w)"

definition get_instance :: "process \<Rightarrow> nat \<Rightarrow> nat option" where
  "get_instance w r = (case d_instance (obj w r) of Some v \<Rightarrow> v | None \<Rightarrow> cls_instance w)"

text \<open>\<open>__new__\<close> (lines 41 to 44): \<^verbatim>\<open>None\<close> is falsy, an object is truthy.\<close>

definition new :: "process \<Rightarrow> nat \<times> process" where
  "new w =
     (case cls_instance w of
        None \<Rightarrow>
          (length (heap w),
           w\<lparr>cls_instance := Some (length (heap w)), heap := heap w @ [empty_dict]\<rparr>)
      | Some r \<Rightarrow> (r, w))"

text \<open>
  \<open>__init__\<close> (lines 47 to 94). Lines 72 to 90 build the collaborators and boot the
  motes, which are not part of this file and may call the engine: \<open>boot\<close> is what they
  make of the engine's attributes, or the exception they raise.
\<close>

definition init :: "(engine \<Rightarrow> outcome) \<Rightarrow> bool \<Rightarrow> nat \<Rightarrow> process \<Rightarrow> status \<times> process" where
  "init boot failIfNotInit r w =
     (if failIfNotInit \<and> \<not> get_init w r then (Raised EnvironmentError, w)
      else if get_init w r then (Normal, w)
      else
        (let (st, e) = boot init_engine
         in (st, w\<lparr>heap := (heap w)[r := (obj w r)\<lparr>d_init := Some True, d_engine := Some e\<rparr>]\<rparr>)))"

text \<open>The call \<^verbatim>\<open>SimEngine(...)\<close>: \<open>__new__\<close>, then \<open>__init__\<close> on what it returned.\<close>

definition construct :: "(engine \<Rightarrow> outcome) \<Rightarrow> bool \<Rightarrow> process \<Rightarrow> status \<times> nat \<times> process" where
  "construct boot failIfNotInit w =
     (let (r, w1) = new w; (st, w2) = init boot failIfNotInit r w1 in (st, r, w2))"

text \<open>
  \<open>destroy\<close> (lines 96 to 103). Line 98 reads \<^verbatim>\<open>self.propagation\<close>, which is there
  when the engine's attributes are. Lines 101 and 102 write two entries of the
  \<^verbatim>\<open>__dict__\<close> of the instance, and line 103 deletes that \<^verbatim>\<open>__dict__\<close>; the next
  access finds a new, empty one.
\<close>

definition destroy :: "nat \<Rightarrow> process \<Rightarrow> status \<times> process" where
  "destroy r w =
     (case d_engine (obj w r) of
        None \<Rightarrow> (Raised AttributeError, w)
      | Some e \<Rightarrow>
          (let w1 = w\<lparr>heap := (heap w)[r := (obj w r)\<lparr>d_instance := Some None\<rparr>]\<rparr>;
               w2 = w1\<lparr>heap := (heap w1)[r := (obj w1 r)\<lparr>d_init := Some False\<rparr>]\<rparr>
           in (Normal, w2\<lparr>heap := (heap w2)[r := empty_dict]\<rparr>)))"

section \<open>Properties of the queue and of the run loop\<close>

subsection \<open>Sequences of calls and the stable sort\<close>

text \<open>The state after a sequence of calls, each of which returned or raised.\<close>

fun after_calls :: "call list \<Rightarrow> engine \<Rightarrow> engine" where
  "after_calls [] e = e"
| "after_calls (c # cs) e = after_calls cs (snd (exec_call c e))"

text \<open>The scheduling and removal calls.\<close>

fun queue_call :: "call \<Rightarrow> bool" where
  "queue_call (ScheduleAtAsn a c uniqueTag priority exceptCurrentASN kw) = True"
| "queue_call (RemoveEvent uniqueTag exceptCurrentASN) = True"
| "queue_call _ = False"

text \<open>
  The reading of the claim: the events that were scheduled and not removed since, listed
  in the order of the calls that scheduled them. A call that schedules appends its event
  (after the removal of lines 180 and 181), unless it fails the assertion of line 177;
  a call of \<open>removeEvent\<close> filters. The clock \<open>now\<close> stays: no call changes it.
\<close>

fun pending_call :: "int \<Rightarrow> event list \<Rightarrow> call \<Rightarrow> event list" where
  "pending_call now L (ScheduleAtAsn a c uniqueTag priority exceptCurrentASN kw) =
     (if now < a
      then (if uniqueTag = None then L
            else filter (\<lambda>ev. \<not> (ev_tag ev = uniqueTag \<and> \<not> (exceptCurrentASN \<and> ev_asn ev = now))) L) @
           [mk_event a priority c uniqueTag kw]
      else L)"
| "pending_call now L (RemoveEvent uniqueTag exceptCurrentASN) =
     filter (\<lambda>ev. \<not> (ev_tag ev = uniqueTag \<and> \<not> (exceptCurrentASN \<and> ev_asn ev = now))) L"
| "pending_call now L _ = L"

definition pending :: "int \<Rightarrow> call list \<Rightarrow> event list \<Rightarrow> event list" where
  "pending now cs L = foldl (pending_call now) L cs"

lemma enqueue_Nil [simp]: "enqueue x [] = [x]"
  by (simp add: enqueue_def)

lemma enqueue_Cons:
  "enqueue x (y # q) = (if ev_key y \<le> ev_key x then y # enqueue x q else x # y # q)"
  by (simp add: enqueue_def)

lemma set_enqueue [simp]: "set (enqueue x q) = insert x (set q)"
  by (induction q) (auto simp: enqueue_Cons)

lemma sorted_enqueue:
  "sorted (map ev_key q) \<Longrightarrow> sorted (map ev_key (enqueue x q))"
  by (induction q) (auto simp: enqueue_Cons)

lemma filter_key_enqueue:
  "sorted (map ev_key q) \<Longrightarrow>
     filter (\<lambda>y. k = ev_key y) (enqueue x q) =
       filter (\<lambda>y. k = ev_key y) q @ (if k = ev_key x then [x] else [])"
proof (induction q arbitrary: k)
  case Nil
  then show ?case by simp
next
  case (Cons y q)
  show ?case
  proof (cases "ev_key y \<le> ev_key x")
    case True
    from Cons.prems have "sorted (map ev_key q)" by simp
    note IH = Cons.IH [OF this]
    from True show ?thesis by (simp add: enqueue_Cons IH)
  next
    case False
    with Cons.prems have "\<forall>z\<in>set (y # q). ev_key x < ev_key z" by auto
    then have "filter (\<lambda>z. ev_key x = ev_key z) (y # q) = []"
      by (auto simp: filter_empty_conv simp del: filter.simps)
    with False show ?thesis by (auto simp: enqueue_Cons)
  qed
qed

lemma enqueue_sort_key:
  "enqueue x (sort_key ev_key L) = sort_key ev_key (L @ [x])"
proof (rule properties_for_sort_key [symmetric])
  show "mset (enqueue x (sort_key ev_key L)) = mset (L @ [x])"
    by (simp add: mset_enqueue)
next
  fix k
  have "filter (\<lambda>y. ev_key k = ev_key y) (sort_key ev_key L) = filter (\<lambda>y. ev_key k = ev_key y) L"
    using sort_key_stable [of ev_key "ev_key k" L] by (simp add: eq_commute)
  then show "filter (\<lambda>y. ev_key k = ev_key y) (enqueue x (sort_key ev_key L)) =
        filter (\<lambda>y. ev_key k = ev_key y) (L @ [x])"
    by (simp add: filter_key_enqueue)
next
  show "sorted (map ev_key (enqueue x (sort_key ev_key L)))"
    by (simp add: sorted_enqueue)
qed

lemma exec_call_sorted:
  assumes "sorted (map ev_key (events e))"
  shows "sorted (map ev_key (events (snd (exec_call c e))))"
proof -
  have sch: "sorted (map ev_key (events e'))"
    if "scheduleAtAsn a c' tg p exc kw e1 = Inr e'" and "events e1 = events e" and "asn e1 = asn e"
    for a c' tg p exc kw e1 e'
    using scheduleAtAsn_Inr(2) [OF that(1)] that(2,3) assms
    by (simp add: sorted_enqueue untag_def sorted_filter)
  show ?thesis
  proof (cases c)
    case (ScheduleAtAsn a c' tg p exc kw)
    then show ?thesis
      using assms sch [of a c' tg p exc kw e]
      by (cases "scheduleAtAsn a c' tg p exc kw e") (simp_all add: of_sum_def)
  next
    case (RemoveEvent tg exc)
    with assms show ?thesis by (simp add: events_removeEvent sorted_filter)
  next
    case (TerminateSimulation d)
    let ?e1 = "e\<lparr>asnEndExperiment := Some (asn e + d)\<rparr>"
    from TerminateSimulation show ?thesis
      using assms sch [of "asn e + d" ActionEndSim "Some (None, ''_actionEndSim'')" 0 True "[]" ?e1]
      by (cases "scheduleAtAsn (asn e + d) ActionEndSim (Some (None, ''_actionEndSim'')) 0 True [] ?e1")
         (simp_all add: of_sum_def terminateSimulation_def Let_def)
  next
    case (PauseAtAsn a)
    then show ?thesis
      using assms sch [of a ActionPauseSim "Some (Some ''SimEngine'', ''_actionPauseSim'')" 0 True "[]" e]
      by (cases "scheduleAtAsn a ActionPauseSim (Some (Some ''SimEngine'', ''_actionPauseSim'')) 0 True [] e")
         (simp_all add: of_sum_def pauseAtAsn_def)
  qed (use assms in \<open>simp_all add: scheduleAtStart_def scheduleAtEnd_def play_def actionResumeSim_def\<close>)
qed

lemma after_calls_sorted:
  "sorted (map ev_key (events e)) \<Longrightarrow> sorted (map ev_key (events (after_calls cs e)))"
  by (induction cs arbitrary: e) (simp_all add: exec_call_sorted)

lemma exec_call_asn: "asn (snd (exec_call c e)) = asn e"
  using exec_call_frame [of c e "fst (exec_call c e)" "snd (exec_call c e)"] by simp

lemma exec_call_pending:
  assumes "queue_call c" and "events e = sort_key ev_key L"
  shows "events (snd (exec_call c e)) = sort_key ev_key (pending_call (asn e) L c)"
proof (cases c)
  case (ScheduleAtAsn a c' tg p exc kw)
  show ?thesis
  proof (cases "scheduleAtAsn a c' tg p exc kw e")
    case (Inl err)
    then have "a \<le> asn e" by (simp add: scheduleAtAsn_Inl)
    with ScheduleAtAsn assms Inl show ?thesis
      by (simp add: of_sum_def)
  next
    case (Inr e')
    from scheduleAtAsn_Inr [OF Inr] ScheduleAtAsn assms Inr show ?thesis
      by (cases tg) (simp_all add: of_sum_def untag_def removable_def filter_sort enqueue_sort_key)
  qed
next
  case (RemoveEvent tg exc)
  with assms show ?thesis by (simp add: events_removeEvent removable_def filter_sort)
qed (use assms in simp_all)

lemma after_calls_pending:
  "list_all queue_call cs \<Longrightarrow> events e = sort_key ev_key L \<Longrightarrow>
     events (after_calls cs e) = sort_key ev_key (pending (asn e) cs L)"
proof (induction cs arbitrary: e L)
  case Nil
  then show ?case by (simp add: pending_def)
next
  case (Cons c cs)
  from Cons.prems have "events (snd (exec_call c e)) = sort_key ev_key (pending_call (asn e) L c)"
    by (simp add: exec_call_pending)
  from Cons.IH [OF _ this] Cons.prems(1) show ?case
    by (simp add: pending_def exec_call_asn)
qed

subsection \<open>Invariants of the run loop\<close>

text \<open>The engine after line 147, when the queue is not empty.\<close>

definition popped :: "engine \<Rightarrow> engine" where
  "popped e = e\<lparr>events := tl (events e), invoked := invoked e @ [Dispatched (asn e) (hd (events e))]\<rparr>"

lemma batch_unfold:
  "batch P e =
     (if events e = [] then (Raised IndexError, e)
      else if ev_asn (hd (events e)) \<noteq> asn e then (Normal, e)
      else (let (st, e') = invoke P (ev_cb (hd (events e))) (ev_kwargs (hd (events e))) (popped e)
            in if st = Normal then batch P e' else (st, e')))"
  by (subst batch.simps) (simp add: popped_def split: list.split)



text \<open>
  What the queue of an engine satisfies between two calls: it is sorted by
  (time, priority) and holds no event before the clock.
\<close>

definition queue_ok :: "engine \<Rightarrow> bool" where
  "queue_ok e \<longleftrightarrow> sorted (map ev_key (events e)) \<and> (\<forall>ev\<in>set (events e). asn e \<le> ev_asn ev)"

text \<open>The calls of line 148 for a list of events, each with the clock at the time of its event.\<close>

definition dispatches :: "event list \<Rightarrow> invocation list" where
  "dispatches ds = map (\<lambda>ev. Dispatched (ev_asn ev) ev) ds"

lemma scheduled_future:
  assumes "scheduleAtAsn a c tg p exc kw e = Inr e'"
    and "\<forall>ev\<in>set (events e). now \<le> ev_asn ev" and "now \<le> asn e"
  shows "\<forall>ev\<in>set (events e'). now \<le> ev_asn ev"
  using scheduleAtAsn_Inr [OF assms(1)] assms(2,3)
  by (auto simp: untag_def mk_event_def split: if_splits)

lemma exec_call_future:
  assumes "\<forall>ev\<in>set (events e). asn e \<le> ev_asn ev"
  shows "\<forall>ev\<in>set (events (snd (exec_call c e))). asn e \<le> ev_asn ev"
proof (cases c)
  case (ScheduleAtAsn a c' tg p exc kw)
  then show ?thesis
    using assms scheduled_future [of a c' tg p exc kw e _ "asn e"]
    by (cases "scheduleAtAsn a c' tg p exc kw e") (simp_all add: of_sum_def)
next
  case (RemoveEvent tg exc)
  with assms show ?thesis by (simp add: events_removeEvent)
next
  case (TerminateSimulation d)
  let ?e1 = "e\<lparr>asnEndExperiment := Some (asn e + d)\<rparr>"
  from TerminateSimulation show ?thesis
    using assms
      scheduled_future [of "asn e + d" ActionEndSim "Some (None, ''_actionEndSim'')" 0 True "[]" ?e1 _ "asn e"]
    by (cases "scheduleAtAsn (asn e + d) ActionEndSim (Some (None, ''_actionEndSim'')) 0 True [] ?e1")
       (simp_all add: of_sum_def terminateSimulation_def Let_def)
next
  case (PauseAtAsn a)
  then show ?thesis
    using assms
      scheduled_future [of a ActionPauseSim "Some (Some ''SimEngine'', ''_actionPauseSim'')" 0 True "[]" e _ "asn e"]
    by (cases "scheduleAtAsn a ActionPauseSim (Some (Some ''SimEngine'', ''_actionPauseSim'')) 0 True [] e")
       (simp_all add: of_sum_def pauseAtAsn_def)
qed (use assms in \<open>simp_all add: scheduleAtStart_def scheduleAtEnd_def play_def actionResumeSim_def\<close>)

lemma exec_call_queue_ok: "queue_ok e \<Longrightarrow> queue_ok (snd (exec_call c e))"
  using exec_call_future [of e c]
  by (simp add: queue_ok_def exec_call_sorted exec_call_asn)






lemma run_loop_Suc:
  "run_loop P (Suc n) e =
     (if \<not> goOn e \<or> events e = [] then Some (Normal, e)
      else if ev_tag (hd (events e)) = None then Some (Raised TypeError, e)
      else if snd (the (ev_tag (hd (events e)))) \<noteq> ''_actionPauseSim'' \<and>
              ev_asn (hd (events e)) < asn e
      then Some (Raised AssertionError, e)
      else (let (st, e') = batch P (e\<lparr>asn := ev_asn (hd (events e))\<rparr>)
            in if st = Normal then run_loop P n e' else Some (st, e')))"
  by (auto split: list.split option.split)






lemma invoke_idle:
  "P k kw (asn e) = [] \<Longrightarrow> invoke P (UserCb k) kw e = (Normal, e)"
  by (simp add: invoke_def)

text \<open>
  A batch whose callbacks make no call on the engine: lines 144 to 148 pop and call
  the events at the head of the queue that are due, in the order of the queue, and
  read \<^verbatim>\<open>self.events[0]\<close> on the empty list when none is left.
\<close>

lemma batch_inert:
  assumes "\<forall>ev\<in>set (events x). ev_asn ev = asn x \<longrightarrow>
             (\<exists>k. ev_cb ev = UserCb k \<and> P k (ev_kwargs ev) (ev_asn ev) = [])"
  shows "batch P x =
           (if dropWhile (\<lambda>ev. ev_asn ev = asn x) (events x) = [] then Raised IndexError else Normal,
            x\<lparr>events := dropWhile (\<lambda>ev. ev_asn ev = asn x) (events x),
              invoked := invoked x @
                map (Dispatched (asn x)) (takeWhile (\<lambda>ev. ev_asn ev = asn x) (events x))\<rparr>)"
  using assms
proof (induction "events x" arbitrary: x)
  case Nil
  then have "events x = []" by simp
  then show ?case by (subst batch_unfold) simp
next
  case (Cons ev rest)
  from Cons.hyps(2) have q: "events x = ev # rest" by simp
  show ?case
  proof (cases "ev_asn ev = asn x")
    case False
    with q show ?thesis by (subst batch_unfold) simp
  next
    case True
    with Cons.prems q obtain k where k: "ev_cb ev = UserCb k" "P k (ev_kwargs ev) (asn x) = []"
      by auto
    let ?x1 = "popped x"
    from q have p: "events ?x1 = rest" "asn ?x1 = asn x"
      "invoked ?x1 = invoked x @ [Dispatched (asn x) ev]"
      by (simp_all add: popped_def)
    from k p have inv: "invoke P (ev_cb ev) (ev_kwargs ev) ?x1 = (Normal, ?x1)"
      by (simp add: invoke_idle)
    from q True inv have b: "batch P x = batch P ?x1"
      by (subst batch_unfold) simp
    have "batch P ?x1 =
           (if dropWhile (\<lambda>ev. ev_asn ev = asn ?x1) (events ?x1) = [] then Raised IndexError else Normal,
            ?x1\<lparr>events := dropWhile (\<lambda>ev. ev_asn ev = asn ?x1) (events ?x1),
              invoked := invoked ?x1 @
                map (Dispatched (asn ?x1)) (takeWhile (\<lambda>ev. ev_asn ev = asn ?x1) (events ?x1))\<rparr>)"
    proof (rule Cons.hyps(1))
      show "rest = events ?x1" using p by simp
      from Cons.prems q p
      show "\<forall>ev\<in>set (events ?x1). ev_asn ev = asn ?x1 \<longrightarrow>
             (\<exists>k. ev_cb ev = UserCb k \<and> P k (ev_kwargs ev) (ev_asn ev) = [])"
        by simp
    qed
    with b p q True show ?thesis by (simp add: popped_def)
  qed
qed

text \<open>
  The run loop on a queue sorted by time, no event before the clock, every event with a
  pair tag and a callback that makes no call: all the events are called, in the order
  of the queue, each with the clock at its time.
\<close>

lemma inert_run_ties:
  "goOn e \<Longrightarrow> events e \<noteq> [] \<Longrightarrow> length (events e) \<le> n \<Longrightarrow>
   sorted (map ev_asn (events e)) \<Longrightarrow>
   \<forall>ev\<in>set (events e). asn e \<le> ev_asn ev \<and> ev_tag ev \<noteq> None \<and>
      (\<exists>k. ev_cb ev = UserCb k \<and> P k (ev_kwargs ev) (ev_asn ev) = []) \<Longrightarrow>
   run_loop P n e =
     Some (Raised IndexError,
           e\<lparr>asn := ev_asn (last (events e)), events := [],
             invoked := invoked e @ dispatches (events e)\<rparr>)"
proof (induction n arbitrary: e)
  case 0
  then show ?case by simp
next
  case (Suc n)
  define q where "q = events e"
  define t where "t = ev_asn (hd q)"
  define d where "d = takeWhile (\<lambda>ev. ev_asn ev = t) q"
  define r where "r = dropWhile (\<lambda>ev. ev_asn ev = t) q"
  define e0 where "e0 = e\<lparr>asn := t\<rparr>"
  define e1 where "e1 = e0\<lparr>events := r, invoked := invoked e0 @ map (Dispatched t) d\<rparr>"
  from Suc.prems(2) obtain ev rest where q: "q = ev # rest" unfolding q_def by (cases "events e") auto
  have t: "t = ev_asn ev" by (simp add: t_def q)
  have dr: "q = d @ r" by (simp add: d_def r_def)
  have dne: "d \<noteq> []" by (simp add: d_def q t)
  have dt: "\<forall>x\<in>set d. ev_asn x = t" unfolding d_def by (auto dest: set_takeWhileD)
  have all: "\<forall>x\<in>set q. asn e \<le> ev_asn x \<and> ev_tag x \<noteq> None \<and>
      (\<exists>k. ev_cb x = UserCb k \<and> P k (ev_kwargs x) (ev_asn x) = [])"
    using Suc.prems(5) unfolding q_def .
  have srt: "sorted (map ev_asn q)" using Suc.prems(4) unfolding q_def .
  from all q have tag: "ev_tag ev \<noteq> None" and le: "asn e \<le> ev_asn ev" by simp_all
  define untagged where "untagged \<longleftrightarrow> ev_tag (hd (events e)) = None"
  define late where
    "late \<longleftrightarrow> snd (the (ev_tag (hd (events e)))) \<noteq> ''_actionPauseSim'' \<and> ev_asn (hd (events e)) < asn e"
  have loop: "run_loop P (Suc n) e =
     (if \<not> goOn e \<or> events e = [] then Some (Normal, e)
      else if untagged then Some (Raised TypeError, e)
      else if late then Some (Raised AssertionError, e)
      else (let (st, e') = batch P (e\<lparr>asn := ev_asn (hd (events e))\<rparr>)
            in if st = Normal then run_loop P n e' else Some (st, e')))"
    unfolding late_def untagged_def by (rule run_loop_Suc)
  have hd: "hd (events e) = ev" using q unfolding q_def by simp
  from tag le have nl: "\<not> untagged" "\<not> late" by (simp_all add: untagged_def late_def hd)
  have e0: "e\<lparr>asn := ev_asn (hd (events e))\<rparr> = e0" by (simp add: e0_def t hd)
  have e0f: "events e0 = q" "asn e0 = t" "invoked e0 = invoked e" "goOn e0 = goOn e"
    by (simp_all add: e0_def q_def)
  have "\<forall>x\<in>set (events e0). ev_asn x = asn e0 \<longrightarrow>
             (\<exists>k. ev_cb x = UserCb k \<and> P k (ev_kwargs x) (ev_asn x) = [])"
    unfolding e0f using all by blast
  from batch_inert [OF this]
  have b: "batch P e0 = (if r = [] then Raised IndexError else Normal, e1)"
    unfolding e0f e1_def d_def r_def .
  have step: "run_loop P (Suc n) e =
      (if r = [] then Some (Raised IndexError, e1) else run_loop P n e1)"
    unfolding loop e0 b using nl Suc.prems(1,2) by simp
  have dd: "map (Dispatched t) d = dispatches d"
    unfolding dispatches_def using dt by (intro map_cong [OF refl]) simp
  have disp: "dispatches q = dispatches d @ dispatches r"
    unfolding dispatches_def dr by simp
  have e1f: "events e1 = r" "asn e1 = t" "invoked e1 = invoked e @ dispatches d" "goOn e1"
    using Suc.prems(1) by (simp_all add: e1_def e0f dd)
  show ?case
  proof (cases "r = []")
    case True
    with dr have "q = d" by simp
    with dt q have "ev_asn (last q) = t" by (metis last_in_set list.discI)
    then have "e1 = e\<lparr>asn := ev_asn (last (events e)), events := [],
             invoked := invoked e @ dispatches (events e)\<rparr>"
      unfolding e1_def e0_def using True disp dd by (simp add: q_def [symmetric] dispatches_def)
    with step True show ?thesis by simp
  next
    case False
    have len: "length r \<le> n"
    proof -
      from dne have "length r < length q" unfolding dr by simp
      with Suc.prems(3) show ?thesis by (simp add: q_def)
    qed
    from srt have sr: "sorted (map ev_asn r)" unfolding dr by (simp add: sorted_append)
    have setr: "set r \<subseteq> set q" unfolding dr by simp
    have ge: "\<forall>x\<in>set r. t \<le> ev_asn x"
    proof
      fix x assume "x \<in> set r"
      with setr have "x \<in> set q" by auto
      with q srt show "t \<le> ev_asn x" unfolding t by auto
    qed
    have "run_loop P n e1 =
        Some (Raised IndexError,
              e1\<lparr>asn := ev_asn (last (events e1)), events := [],
                invoked := invoked e1 @ dispatches (events e1)\<rparr>)"
    proof (rule Suc.IH)
      show "goOn e1" by (rule e1f)
      show "events e1 \<noteq> []" using False by (simp add: e1f)
      show "length (events e1) \<le> n" using len by (simp add: e1f)
      show "sorted (map ev_asn (events e1))" using sr by (simp add: e1f)
      from all setr ge
      show "\<forall>ev\<in>set (events e1). asn e1 \<le> ev_asn ev \<and> ev_tag ev \<noteq> None \<and>
          (\<exists>k. ev_cb ev = UserCb k \<and> P k (ev_kwargs ev) (ev_asn ev) = [])"
        unfolding e1f by blast
    qed
    moreover from False have "last q = last r" unfolding dr by simp
    then have "e1\<lparr>asn := ev_asn (last (events e1)), events := [],
                invoked := invoked e1 @ dispatches (events e1)\<rparr> =
         e\<lparr>asn := ev_asn (last (events e)), events := [],
             invoked := invoked e @ dispatches (events e)\<rparr>"
      unfolding e1f q_def [symmetric] disp by (simp add: e1_def e0_def)
    ultimately show ?thesis using step False by simp
  qed
qed

lemma after_calls_queue_ok: "queue_ok e \<Longrightarrow> queue_ok (after_calls cs e)"
  by (induction cs arbitrary: e) (simp_all add: exec_call_queue_ok)

lemma after_calls_frame:
  "asn (after_calls cs e) = asn e \<and> invoked (after_calls cs e) = invoked e \<and>
   goOn (after_calls cs e) = goOn e"
proof (induction cs arbitrary: e)
  case Nil
  show ?case by simp
next
  case (Cons c cs)
  have "exec_call c e = (fst (exec_call c e), snd (exec_call c e))" by simp
  from exec_call_frame [OF this] Cons.IH [of "snd (exec_call c e)"] show ?case by simp
qed

lemma sorted_key_time: "sorted (map ev_key q) \<Longrightarrow> sorted (map ev_asn q)"
  by (induction q) (auto simp: ev_key_def less_eq_prod_def split: if_splits)


text \<open>Whatever the callbacks: the first event of a batch is called first.\<close>

lemma batch_head_first:
  assumes "batch P x = (st, x')" and "events x = ev # rest" and "ev_asn ev = asn x"
  shows "\<exists>ds. invoked x' = invoked x @ map (Dispatched (asn x)) (ev # ds) \<and> subseq ds rest"
proof -
  obtain st1 x1 where inv: "invoke P (ev_cb ev) (ev_kwargs ev) (popped x) = (st1, x1)"
    by (cases "invoke P (ev_cb ev) (ev_kwargs ev) (popped x)")
  from assms(2) have p: "asn (popped x) = asn x" "events (popped x) = rest"
    "invoked (popped x) = invoked x @ [Dispatched (asn x) ev]"
    by (simp_all add: popped_def)
  from invoke_frame [OF inv] p
  have f: "asn x1 = asn x" "invoked x1 = invoked x @ [Dispatched (asn x) ev]"
    "subseq (due (asn x) (events x1)) (due (asn x) rest)"
    by simp_all
  have sub: "subseq (due (asn x) rest) rest" by (simp add: due_def)
  show ?thesis
  proof (cases "st1 = Normal")
    case True
    with assms inv have "batch P x1 = (st, x')" by (subst (asm) batch_unfold) simp
    from batch_dispatch [OF this] f obtain ds
      where ds: "invoked x' = invoked x1 @ map (Dispatched (asn x)) ds"
        and s: "subseq ds (due (asn x) (events x1))"
      by auto
    from s f(3) sub have "subseq ds rest" by (blast intro: subseq_order.trans)
    with ds f(2) show ?thesis by (intro exI [of _ ds]) simp
  next
    case False
    with assms inv have "x' = x1" by (subst (asm) batch_unfold) simp
    with f(2) show ?thesis by (intro exI [of _ "[]"]) simp
  qed
qed



text \<open>Scheduling and removal calls, then the run loop.\<close>

lemma scheduled_inert_run:
  assumes "queue_ok e" and "goOn e" and "list_all queue_call cs"
    and "pending (asn e) cs (events e) \<noteq> []"
    and "\<forall>ev\<in>set (pending (asn e) cs (events e)). ev_tag ev \<noteq> None \<and>
           (\<exists>k. ev_cb ev = UserCb k \<and> P k (ev_kwargs ev) (ev_asn ev) = [])"
  shows "run_loop P (length (pending (asn e) cs (events e))) (after_calls cs e) =
     Some (Raised IndexError,
           (after_calls cs e)\<lparr>asn := ev_asn (last (sort_key ev_key (pending (asn e) cs (events e)))),
             events := [],
             invoked := invoked e @ dispatches (sort_key ev_key (pending (asn e) cs (events e)))\<rparr>)"
proof -
  define L where "L = pending (asn e) cs (events e)"
  define x where "x = after_calls cs e"
  from assms(1) have "events e = sort_key ev_key (events e)"
    by (simp add: queue_ok_def sort_key_id_if_sorted)
  from after_calls_pending [OF assms(3) this]
  have ev: "events x = sort_key ev_key L" by (simp add: x_def L_def)
  have fr: "asn x = asn e" "invoked x = invoked e" "goOn x = goOn e"
    using after_calls_frame [of cs e] by (simp_all add: x_def)
  from assms(1) have ok: "queue_ok x" unfolding x_def by (rule after_calls_queue_ok)
  have "run_loop P (length L) x =
     Some (Raised IndexError,
           x\<lparr>asn := ev_asn (last (events x)), events := [],
             invoked := invoked x @ dispatches (events x)\<rparr>)"
  proof (rule inert_run_ties)
    show "goOn x" using assms(2) fr by simp
    show "events x \<noteq> []" using assms(4) unfolding ev L_def [symmetric]
      by (metis length_0_conv length_sort)
    show "length (events x) \<le> length L" unfolding ev by simp
    from ok show "sorted (map ev_asn (events x))"
      by (simp add: queue_ok_def sorted_key_time)
    from ok have "\<forall>ev\<in>set (events x). asn x \<le> ev_asn ev" by (simp add: queue_ok_def)
    moreover have "set (events x) = set L" unfolding ev by simp
    ultimately show "\<forall>ev\<in>set (events x). asn x \<le> ev_asn ev \<and> ev_tag ev \<noteq> None \<and>
       (\<exists>k. ev_cb ev = UserCb k \<and> P k (ev_kwargs ev) (ev_asn ev) = [])"
      using assms(5) unfolding L_def [symmetric] by blast
  qed
  then show ?thesis unfolding ev fr unfolding x_def L_def .
qed


lemma exec_call_status: "fst (exec_call c e) = Normal \<or> fst (exec_call c e) = Raised AssertionError"
  by (cases c)
     (auto simp: of_sum_def scheduleAtAsn_def Let_def terminateSimulation_def pauseAtAsn_def)

lemma exec_calls_schedule_now:
  assumes "ScheduleAtAsn now c tg p exc kw \<in> set cs" and "asn e = now"
  shows "fst (exec_calls cs e) = Raised AssertionError"
  using assms
proof (induction cs arbitrary: e)
  case Nil
  then show ?case by simp
next
  case (Cons c' cs)
  obtain st1 e1 where c1: "exec_call c' e = (st1, e1)" by (cases "exec_call c' e")
  show ?case
  proof (cases "st1 = Normal")
    case False
    with exec_call_status [of c' e] c1 show ?thesis by simp
  next
    case True
    have "c' \<noteq> ScheduleAtAsn now c tg p exc kw"
    proof
      assume "c' = ScheduleAtAsn now c tg p exc kw"
      with c1 Cons.prems(2) have "st1 = Raised AssertionError"
        by (simp add: of_sum_def scheduleAtAsn_def)
      with True show False by simp
    qed
    with Cons.prems(1) have in_cs: "ScheduleAtAsn now c tg p exc kw \<in> set cs" by simp
    from exec_call_frame [OF c1] Cons.prems(2) have "asn e1 = now" by simp
    from Cons.IH [OF in_cs this] c1 True show ?thesis by simp
  qed
qed

lemma exec_call_new_events:
  "\<forall>ev\<in>set (events (snd (exec_call c e))). ev \<in> set (events e) \<or> asn e < ev_asn ev"
proof -
  have sch: "\<forall>ev\<in>set (events e'). ev \<in> set (events e) \<or> asn e < ev_asn ev"
    if "scheduleAtAsn a c' tg p exc kw e1 = Inr e'" and "events e1 = events e" and "asn e1 = asn e"
    for a c' tg p exc kw e1 e'
    using scheduleAtAsn_Inr [OF that(1)] that(2,3)
    by (auto simp: untag_def mk_event_def split: if_splits)
  show ?thesis
  proof (cases c)
    case (ScheduleAtAsn a c' tg p exc kw)
    then show ?thesis
      using sch [of a c' tg p exc kw e]
      by (cases "scheduleAtAsn a c' tg p exc kw e") (simp_all add: of_sum_def)
  next
    case (RemoveEvent tg exc)
    then show ?thesis by (simp add: events_removeEvent)
  next
    case (TerminateSimulation d)
    let ?e1 = "e\<lparr>asnEndExperiment := Some (asn e + d)\<rparr>"
    from TerminateSimulation show ?thesis
      using sch [of "asn e + d" ActionEndSim "Some (None, ''_actionEndSim'')" 0 True "[]" ?e1]
      by (cases "scheduleAtAsn (asn e + d) ActionEndSim (Some (None, ''_actionEndSim'')) 0 True [] ?e1")
         (simp_all add: of_sum_def terminateSimulation_def Let_def)
  next
    case (PauseAtAsn a)
    then show ?thesis
      using sch [of a ActionPauseSim "Some (Some ''SimEngine'', ''_actionPauseSim'')" 0 True "[]" e]
      by (cases "scheduleAtAsn a ActionPauseSim (Some (Some ''SimEngine'', ''_actionPauseSim'')) 0 True [] e")
         (simp_all add: of_sum_def pauseAtAsn_def)
  qed (simp_all add: scheduleAtStart_def scheduleAtEnd_def play_def actionResumeSim_def)
qed

text \<open>No event with a given tag is due at the clock or before.\<close>

definition none_due :: "tag option \<Rightarrow> engine \<Rightarrow> bool" where
  "none_due tg e \<longleftrightarrow> (\<forall>ev\<in>set (events e). ev_tag ev = tg \<longrightarrow> asn e < ev_asn ev)"

lemma exec_calls_none_due:
  assumes "exec_calls cs e = (Normal, e')"
    and "none_due tg e \<or> RemoveEvent tg False \<in> set cs"
  shows "none_due tg e'"
  using assms
proof (induction cs arbitrary: e)
  case Nil
  then show ?case by simp
next
  case (Cons c cs)
  obtain st1 e1 where c1: "exec_call c e = (st1, e1)" by (cases "exec_call c e")
  with Cons.prems(1) have st1: "st1 = Normal" and rest: "exec_calls cs e1 = (Normal, e')"
    by (auto split: if_splits)
  from exec_call_frame [OF c1] have a1: "asn e1 = asn e" by simp
  from exec_call_new_events [of c e] c1
  have new: "\<forall>ev\<in>set (events e1). ev \<in> set (events e) \<or> asn e < ev_asn ev" by simp
  have "none_due tg e1 \<or> RemoveEvent tg False \<in> set cs"
  proof (cases "c = RemoveEvent tg False")
    case True
    with c1 have "none_due tg e1"
      by (auto simp: none_due_def events_removeEvent removable_def)
    then show ?thesis ..
  next
    case False
    show ?thesis
    proof (cases "none_due tg e")
      case True
      with new a1 have "none_due tg e1" by (auto simp: none_due_def)
      then show ?thesis ..
    next
      case F: False
      with Cons.prems(2) False show ?thesis by simp
    qed
  qed
  from Cons.IH [OF rest this] show ?case .
qed

section \<open>The claims\<close>

subsection \<open>An engine in the middle of a batch, for the examples\<close>

text \<open>
  The clock is 4. One event tagged \<open>a\<close> is due now and one later; one untagged event and
  one tagged \<open>b\<close> are pending.
\<close>

definition tag_a :: tag where
  "tag_a = (None, ''a'')"

definition tag_b :: tag where
  "tag_b = (None, ''b'')"

definition mid_batch :: engine where
  "mid_batch =
     init_engine\<lparr>asn := 4, events :=
       [mk_event 4 0 (UserCb 1) (Some tag_a) [],
        mk_event 6 0 (UserCb 2) None [],
        mk_event 6 1 (UserCb 1) (Some tag_a) [],
        mk_event 9 0 (UserCb 3) (Some tag_b) []]\<rparr>"

definition mid_batch_untagged_head :: engine where
  "mid_batch_untagged_head =
     init_engine\<lparr>asn := 4, events :=
       [mk_event 6 0 (UserCb 2) None [],
        mk_event 9 0 (UserCb 3) (Some tag_b) []]\<rparr>"

definition mid_batch_rescheduled :: engine where
  "mid_batch_rescheduled =
     init_engine\<lparr>asn := 4, events :=
       [mk_event 4 0 (UserCb 1) (Some tag_a) [],
        mk_event 6 0 (UserCb 2) None [],
        mk_event 7 0 (UserCb 5) (Some tag_a) [],
        mk_event 9 0 (UserCb 3) (Some tag_b) []]\<rparr>"

definition mid_batch_untagged :: engine where
  "mid_batch_untagged =
     init_engine\<lparr>asn := 4, events :=
       [mk_event 4 0 (UserCb 1) (Some tag_a) [],
        mk_event 6 0 (UserCb 2) None [],
        mk_event 6 1 (UserCb 1) (Some tag_a) [],
        mk_event 7 0 (UserCb 5) None [],
        mk_event 9 0 (UserCb 3) (Some tag_b) []]\<rparr>"

text \<open>Callables that make no call on the engine, and two settings.\<close>

definition idle :: prog where
  "idle n kw now = []"

definition join_cfg :: settings where
  "join_cfg =
     \<lparr>secjoin_enabled = True, slotframeLength = 101, exec_numSlotframesPerRun = 1,
      slotDuration = 1 / 4\<rparr>"

definition default_cfg :: settings where
  "default_cfg =
     \<lparr>secjoin_enabled = False, slotframeLength = 101, exec_numSlotframesPerRun = 1,
      slotDuration = 1\<rparr>"

subsection \<open>C1: dispatch in the order of time\<close>









subsection \<open>C2: the queue is sorted by time, priority and order of insertion\<close>

definition spec_example_calls :: "call list" where
  "spec_example_calls =
     [ScheduleAtAsn 5 (UserCb 1) (Some tag_a) 0 True [],
      ScheduleAtAsn 5 (UserCb 2) (Some tag_b) 1 True [],
      ScheduleAtAsn 3 (UserCb 3) None 0 True [],
      ScheduleAtAsn 5 (UserCb 4) None 0 True [],
      ScheduleAtAsn 0 (UserCb 5) None 0 True [],
      RemoveEvent (Some tag_b) True,
      ScheduleAtAsn 5 (UserCb 6) None 0 True []]"

text \<open>
  Four tagged events, three of them at time 5: the callables 1 and 4 with priority 0,
  scheduled in this order, and the callable 2 with priority 1, scheduled between them.
\<close>

definition tie_calls :: "call list" where
  "tie_calls =
     [ScheduleAtAsn 5 (UserCb 1) (Some tag_a) 0 True [],
      ScheduleAtAsn 5 (UserCb 2) (Some tag_b) 1 True [],
      ScheduleAtAsn 3 (UserCb 3) (Some (None, ''c'')) 0 True [],
      ScheduleAtAsn 5 (UserCb 4) (Some (None, ''d'')) 0 True []]"

text \<open>
  C2. Whatever calls are made from a sorted queue (the empty queue of a new engine is
  one), each returning or raising, the queue is sorted by (time, priority) after every
  one of them. After scheduling and removal calls it is the stable sort by
  (time, priority) of the events scheduled and not removed, taken in the order of their
  scheduling: the events of one (time, priority) stand in the queue in that order.
  Whatever the callbacks, a batch calls events of the queue in the order of the queue,
  the first event first when it is due. When the callbacks make no call on the engine,
  the batch calls exactly the events at the head of the queue that are due, in the order
  of the queue; and the run loop, after scheduling and removal calls that leave events
  with pair tags, calls exactly the events scheduled and not removed, in the order of
  the stable sort: those of one (time, priority) in the order of their scheduling.
\<close>

theorem queue_sorted_by_key_then_insertion:
  assumes "sorted (map ev_key (events e))"
  shows "sorted (map ev_key (events (after_calls cs e))) \<and>
    (list_all queue_call cs \<longrightarrow>
       events (after_calls cs e) = sort_key ev_key (pending (asn e) cs (events e)) \<and>
       (\<forall>k. filter (\<lambda>ev. ev_key ev = k) (events (after_calls cs e)) =
            filter (\<lambda>ev. ev_key ev = k) (pending (asn e) cs (events e)))) \<and>
    (\<forall>P x st x'. batch P x = (st, x') \<longrightarrow>
       (\<exists>ds. invoked x' = invoked x @ map (Dispatched (asn x)) ds \<and> subseq ds (events x) \<and>
             (events x \<noteq> [] \<and> ev_asn (hd (events x)) = asn x \<longrightarrow>
                ds \<noteq> [] \<and> hd ds = hd (events x)))) \<and>
    (\<forall>(P :: prog) (x :: engine). (\<forall>ev\<in>set (events x). ev_asn ev = asn x \<longrightarrow>
               (\<exists>k. ev_cb ev = UserCb k \<and> P k (ev_kwargs ev) (ev_asn ev) = [])) \<longrightarrow>
       batch P x =
         (if dropWhile (\<lambda>ev. ev_asn ev = asn x) (events x) = [] then Raised IndexError
          else Normal,
          x\<lparr>events := dropWhile (\<lambda>ev. ev_asn ev = asn x) (events x),
            invoked := invoked x @
              map (Dispatched (asn x)) (takeWhile (\<lambda>ev. ev_asn ev = asn x) (events x))\<rparr>)) \<and>
    (list_all queue_call cs \<and> goOn e \<and> (\<forall>ev\<in>set (events e). asn e \<le> ev_asn ev) \<and>
       pending (asn e) cs (events e) \<noteq> [] \<and>
       (\<forall>ev\<in>set (pending (asn e) cs (events e)). ev_tag ev \<noteq> None \<and>
          (\<exists>k. ev_cb ev = UserCb k \<and> P k (ev_kwargs ev) (ev_asn ev) = [])) \<longrightarrow>
       run_loop P (length (pending (asn e) cs (events e))) (after_calls cs e) =
         Some (Raised IndexError,
               (after_calls cs e)
                 \<lparr>asn := ev_asn (last (sort_key ev_key (pending (asn e) cs (events e)))),
                  events := [],
                  invoked := invoked e @
                    dispatches (sort_key ev_key (pending (asn e) cs (events e)))\<rparr>) \<and>
       (\<forall>k. filter (\<lambda>ev. ev_key ev = k) (sort_key ev_key (pending (asn e) cs (events e))) =
            filter (\<lambda>ev. ev_key ev = k) (pending (asn e) cs (events e))))"
proof (intro conjI impI allI)
  show "sorted (map ev_key (events (after_calls cs e)))"
    using assms by (rule after_calls_sorted)
next
  assume q: "list_all queue_call cs"
  from assms have "events e = sort_key ev_key (events e)"
    by (simp add: sort_key_id_if_sorted)
  from after_calls_pending [OF q this]
  show p: "events (after_calls cs e) = sort_key ev_key (pending (asn e) cs (events e))" .
  fix k
  show "filter (\<lambda>ev. ev_key ev = k) (events (after_calls cs e)) =
        filter (\<lambda>ev. ev_key ev = k) (pending (asn e) cs (events e))"
    unfolding p by (rule sort_key_stable)
next
  fix P x st x'
  assume b: "batch P x = (st, x')"
  show "\<exists>ds. invoked x' = invoked x @ map (Dispatched (asn x)) ds \<and> subseq ds (events x) \<and>
             (events x \<noteq> [] \<and> ev_asn (hd (events x)) = asn x \<longrightarrow>
                ds \<noteq> [] \<and> hd ds = hd (events x))"
  proof (cases "events x \<noteq> [] \<and> ev_asn (hd (events x)) = asn x")
    case True
    then obtain ev rest where q: "events x = ev # rest" and now: "ev_asn ev = asn x"
      by (cases "events x") auto
    from batch_head_first [OF b q now] obtain ds
      where "invoked x' = invoked x @ map (Dispatched (asn x)) (ev # ds)" and "subseq ds rest"
      by blast
    with q show ?thesis by (intro exI [of _ "ev # ds"]) simp
  next
    case False
    from batch_dispatch [OF b]
    obtain ds where "invoked x' = invoked x @ map (Dispatched (asn x)) ds"
      and "subseq ds (due (asn x) (events x))"
      by blast
    moreover have "subseq (due (asn x) (events x)) (events x)"
      by (simp add: due_def)
    ultimately have "invoked x' = invoked x @ map (Dispatched (asn x)) ds \<and> subseq ds (events x)"
      by (blast intro: subseq_order.trans)
    with False show ?thesis by blast
  qed
next
  fix P :: prog and x :: engine
  assume "\<forall>ev\<in>set (events x). ev_asn ev = asn x \<longrightarrow>
               (\<exists>k. ev_cb ev = UserCb k \<and> P k (ev_kwargs ev) (ev_asn ev) = [])"
  then show "batch P x =
         (if dropWhile (\<lambda>ev. ev_asn ev = asn x) (events x) = [] then Raised IndexError
          else Normal,
          x\<lparr>events := dropWhile (\<lambda>ev. ev_asn ev = asn x) (events x),
            invoked := invoked x @
              map (Dispatched (asn x)) (takeWhile (\<lambda>ev. ev_asn ev = asn x) (events x))\<rparr>)"
    by (rule batch_inert)
next
  assume h: "list_all queue_call cs \<and> goOn e \<and> (\<forall>ev\<in>set (events e). asn e \<le> ev_asn ev) \<and>
       pending (asn e) cs (events e) \<noteq> [] \<and>
       (\<forall>ev\<in>set (pending (asn e) cs (events e)). ev_tag ev \<noteq> None \<and>
          (\<exists>k. ev_cb ev = UserCb k \<and> P k (ev_kwargs ev) (ev_asn ev) = []))"
  with assms have "queue_ok e" by (simp add: queue_ok_def)
  moreover from h have "goOn e" "list_all queue_call cs"
    "pending (asn e) cs (events e) \<noteq> []"
    "\<forall>ev\<in>set (pending (asn e) cs (events e)). ev_tag ev \<noteq> None \<and>
         (\<exists>k. ev_cb ev = UserCb k \<and> P k (ev_kwargs ev) (ev_asn ev) = [])"
    by blast+
  ultimately show "run_loop P (length (pending (asn e) cs (events e))) (after_calls cs e) =
         Some (Raised IndexError,
               (after_calls cs e)
                 \<lparr>asn := ev_asn (last (sort_key ev_key (pending (asn e) cs (events e)))),
                  events := [],
                  invoked := invoked e @
                    dispatches (sort_key ev_key (pending (asn e) cs (events e)))\<rparr>)"
    by (rule scheduled_inert_run)
  fix k
  show "filter (\<lambda>ev. ev_key ev = k) (sort_key ev_key (pending (asn e) cs (events e))) =
            filter (\<lambda>ev. ev_key ev = k) (pending (asn e) cs (events e))"
    by (rule sort_key_stable)
qed

theorem queue_sorted_by_key_then_insertion_witness:
  "sorted (map ev_key (events init_engine)) \<and> list_all queue_call spec_example_calls \<and>
   events (after_calls spec_example_calls init_engine) =
     [mk_event 3 0 (UserCb 3) None [],
      mk_event 5 0 (UserCb 1) (Some tag_a) [],
      mk_event 5 0 (UserCb 4) None [],
      mk_event 5 0 (UserCb 6) None []] \<and>
   sort_key ev_key (pending (asn init_engine) spec_example_calls (events init_engine)) =
     events (after_calls spec_example_calls init_engine) \<and>
   list_all queue_call tie_calls \<and> goOn init_engine \<and>
   pending (asn init_engine) tie_calls (events init_engine) =
     [mk_event 5 0 (UserCb 1) (Some tag_a) [],
      mk_event 5 1 (UserCb 2) (Some tag_b) [],
      mk_event 3 0 (UserCb 3) (Some (None, ''c'')) [],
      mk_event 5 0 (UserCb 4) (Some (None, ''d'')) []] \<and>
   run_loop idle 4 (after_calls tie_calls init_engine) =
     Some (Raised IndexError,
           init_engine\<lparr>asn := 5, events := [],
             invoked :=
               [Dispatched 3 (mk_event 3 0 (UserCb 3) (Some (None, ''c'')) []),
                Dispatched 5 (mk_event 5 0 (UserCb 1) (Some tag_a) []),
                Dispatched 5 (mk_event 5 0 (UserCb 4) (Some (None, ''d'')) []),
                Dispatched 5 (mk_event 5 1 (UserCb 2) (Some tag_b) [])]\<rparr>)"
proof -
  have h: "sorted (map ev_key (events init_engine))" by (simp add: init_engine_def)
  have q: "list_all queue_call spec_example_calls" by (simp add: spec_example_calls_def)
  have r: "events (after_calls spec_example_calls init_engine) =
     [mk_event 3 0 (UserCb 3) None [],
      mk_event 5 0 (UserCb 1) (Some tag_a) [],
      mk_event 5 0 (UserCb 4) None [],
      mk_event 5 0 (UserCb 6) None []]"
    by code_simp
  note t1 = queue_sorted_by_key_then_insertion [OF h, of spec_example_calls idle]
  from t1 [THEN conjunct2, THEN conjunct1] q
  have p: "sort_key ev_key (pending (asn init_engine) spec_example_calls (events init_engine)) =
     events (after_calls spec_example_calls init_engine)"
    by simp
  define L where "L = pending (asn init_engine) tie_calls (events init_engine)"
  have pend: "L =
     [mk_event 5 0 (UserCb 1) (Some tag_a) [],
      mk_event 5 1 (UserCb 2) (Some tag_b) [],
      mk_event 3 0 (UserCb 3) (Some (None, ''c'')) [],
      mk_event 5 0 (UserCb 4) (Some (None, ''d'')) []]"
    unfolding L_def by code_simp
  have srt: "sort_key ev_key L =
     [mk_event 3 0 (UserCb 3) (Some (None, ''c'')) [],
      mk_event 5 0 (UserCb 1) (Some tag_a) [],
      mk_event 5 0 (UserCb 4) (Some (None, ''d'')) [],
      mk_event 5 1 (UserCb 2) (Some tag_b) []]"
    unfolding L_def by code_simp
  have q2: "list_all queue_call tie_calls" by (simp add: tie_calls_def)
  have go: "goOn init_engine" by (simp add: init_engine_def)
  have fut: "\<forall>ev\<in>set (events init_engine). asn init_engine \<le> ev_asn ev"
    by (simp add: init_engine_def)
  have ne: "L \<noteq> []" unfolding pend by simp
  have ta: "\<forall>ev\<in>set L. ev_tag ev \<noteq> None \<and>
         (\<exists>k. ev_cb ev = UserCb k \<and> idle k (ev_kwargs ev) (ev_asn ev) = [])"
    unfolding pend by (simp add: mk_event_def idle_def)
  have len: "length L = 4" unfolding pend by simp
  have v: "(after_calls tie_calls init_engine)
              \<lparr>asn := ev_asn (last (sort_key ev_key L)), events := [],
               invoked := invoked init_engine @ dispatches (sort_key ev_key L)\<rparr> =
           init_engine\<lparr>asn := 5, events := [],
             invoked :=
               [Dispatched 3 (mk_event 3 0 (UserCb 3) (Some (None, ''c'')) []),
                Dispatched 5 (mk_event 5 0 (UserCb 1) (Some tag_a) []),
                Dispatched 5 (mk_event 5 0 (UserCb 4) (Some (None, ''d'')) []),
                Dispatched 5 (mk_event 5 1 (UserCb 2) (Some tag_b) [])]\<rparr>"
    unfolding srt by code_simp
  note t2 = queue_sorted_by_key_then_insertion [OF h, of tie_calls idle]
  from t2 [THEN conjunct2, THEN conjunct2, THEN conjunct2, THEN conjunct2] q2 go fut ne ta
  have "run_loop idle (length L) (after_calls tie_calls init_engine) =
         Some (Raised IndexError,
               (after_calls tie_calls init_engine)
                 \<lparr>asn := ev_asn (last (sort_key ev_key L)), events := [],
                  invoked := invoked init_engine @ dispatches (sort_key ev_key L)\<rparr>)"
    unfolding L_def by blast
  then have run: "run_loop idle 4 (after_calls tie_calls init_engine) =
     Some (Raised IndexError,
           init_engine\<lparr>asn := 5, events := [],
             invoked :=
               [Dispatched 3 (mk_event 3 0 (UserCb 3) (Some (None, ''c'')) []),
                Dispatched 5 (mk_event 5 0 (UserCb 1) (Some tag_a) []),
                Dispatched 5 (mk_event 5 0 (UserCb 4) (Some (None, ''d'')) []),
                Dispatched 5 (mk_event 5 1 (UserCb 2) (Some tag_b) [])]\<rparr>)"
    unfolding len v .
  from h q r p q2 go pend run show ?thesis unfolding L_def by (intro conjI)
qed

subsection \<open>C3: scheduling at or before the clock\<close>

text \<open>
  C3. For every time \<open>a\<close> with \<open>a \<le> asn\<close>, \<open>scheduleAtAsn\<close> fails the assertion of
  line 177, whatever its other arguments, and the engine is left as it was: no event is
  inserted.
\<close>

theorem scheduleAtAsn_not_in_future:
  "a \<le> asn e \<Longrightarrow>
     scheduleAtAsn a c uniqueTag priority exceptCurrentASN kw e = Inl AssertionError \<and>
     exec_call (ScheduleAtAsn a c uniqueTag priority exceptCurrentASN kw) e =
       (Raised AssertionError, e)"
  by (simp add: scheduleAtAsn_def of_sum_def)

theorem scheduleAtAsn_not_in_future_witness:
  "(4::int) \<le> asn mid_batch \<and>
   scheduleAtAsn 4 (UserCb 5) None 0 True [] mid_batch = Inl AssertionError \<and>
   exec_call (ScheduleAtAsn 4 (UserCb 5) None 0 True []) mid_batch =
     (Raised AssertionError, mid_batch)"
proof -
  have h: "(4::int) \<le> asn mid_batch" by (simp add: mid_batch_def)
  from scheduleAtAsn_not_in_future [OF h, of "UserCb 5" None 0 True "[]"] h show ?thesis
    by blast
qed

subsection \<open>C4: one pending event for a tag\<close>

text \<open>
  C4. After \<open>scheduleAtAsn\<close> with tag \<open>t\<close> has returned, the new event is the only
  queued event with tag \<open>t\<close>, apart from events with tag \<open>t\<close> that are due at the
  current clock when \<open>exceptCurrentASN\<close> holds: these stay, as every event with another
  tag or none does. \<open>removeEvent\<close> with tag \<open>t\<close> removes exactly the events with tag
  \<open>t\<close>, with the same exception, so it removes no untagged event; and scheduling
  without a tag removes nothing.
\<close>

theorem at_most_one_pending_per_tag:
  "(scheduleAtAsn a c (Some t) priority exceptCurrentASN kw e = Inr e' \<longrightarrow>
      filter (\<lambda>ev. ev_tag ev = Some t \<and> \<not> (exceptCurrentASN \<and> ev_asn ev = asn e)) (events e') =
        [mk_event a priority c (Some t) kw] \<and>
      mset (events e') =
        add_mset (mk_event a priority c (Some t) kw)
          (mset (filter (\<lambda>ev. \<not> (ev_tag ev = Some t \<and> \<not> (exceptCurrentASN \<and> ev_asn ev = asn e)))
             (events e)))) \<and>
   events (removeEvent (Some t) exceptCurrentASN e) =
     filter (\<lambda>ev. \<not> (ev_tag ev = Some t \<and> \<not> (exceptCurrentASN \<and> ev_asn ev = asn e))) (events e) \<and>
   filter (\<lambda>ev. ev_tag ev = None) (events (removeEvent (Some t) exceptCurrentASN e)) =
     filter (\<lambda>ev. ev_tag ev = None) (events e) \<and>
   (scheduleAtAsn a c None priority exceptCurrentASN kw e = Inr e'' \<longrightarrow>
      mset (events e'') = add_mset (mk_event a priority c None kw) (mset (events e)))"
proof -
  let ?R = "\<lambda>ev. ev_tag ev = Some t \<and> \<not> (exceptCurrentASN \<and> ev_asn ev = asn e)"
  have 1: "filter ?R (events e') = [mk_event a priority c (Some t) kw] \<and>
      mset (events e') =
        add_mset (mk_event a priority c (Some t) kw) (mset (filter (\<lambda>ev. \<not> ?R ev) (events e)))"
    if h: "scheduleAtAsn a c (Some t) priority exceptCurrentASN kw e = Inr e'"
    using scheduleAtAsn_tagged [OF h] by simp
  have 2: "events (removeEvent (Some t) exceptCurrentASN e) = filter (\<lambda>ev. \<not> ?R ev) (events e)"
    by (simp add: events_removeEvent removable_def)
  have 3: "filter (\<lambda>ev. ev_tag ev = None) (events (removeEvent (Some t) exceptCurrentASN e)) =
     filter (\<lambda>ev. ev_tag ev = None) (events e)"
    unfolding 2 by (simp add: conj_commute cong: conj_cong)
  have 4: "mset (events e'') = add_mset (mk_event a priority c None kw) (mset (events e))"
    if h: "scheduleAtAsn a c None priority exceptCurrentASN kw e = Inr e''"
    using scheduleAtAsn_Inr(2) [OF h] by (simp add: untag_def mset_enqueue)
  from 1 2 3 4 show ?thesis by blast
qed

theorem at_most_one_pending_per_tag_witness:
  "scheduleAtAsn 7 (UserCb 5) (Some tag_a) 0 True [] mid_batch = Inr mid_batch_rescheduled \<and>
   filter (\<lambda>ev. ev_tag ev = Some tag_a \<and> \<not> (True \<and> ev_asn ev = asn mid_batch))
     (events mid_batch_rescheduled) = [mk_event 7 0 (UserCb 5) (Some tag_a) []] \<and>
   scheduleAtAsn 7 (UserCb 5) None 0 True [] mid_batch = Inr mid_batch_untagged \<and>
   mset (events mid_batch_untagged) =
     add_mset (mk_event 7 0 (UserCb 5) None []) (mset (events mid_batch))"
proof -
  have h1: "scheduleAtAsn 7 (UserCb 5) (Some tag_a) 0 True [] mid_batch = Inr mid_batch_rescheduled"
    by code_simp
  have h2: "scheduleAtAsn 7 (UserCb 5) None 0 True [] mid_batch = Inr mid_batch_untagged"
    by code_simp
  from at_most_one_pending_per_tag
    [of 7 "UserCb 5" tag_a 0 True "[]" mid_batch mid_batch_rescheduled mid_batch_untagged] h1 h2
  show ?thesis by simp
qed

subsection \<open>C5: what a callback does to the current batch\<close>

text \<open>The callable 1 schedules the callable 2 at the clock it reads.\<close>

definition schedules_now :: prog where
  "schedules_now k kw now = (if k = 1 then [ScheduleAtAsn now (UserCb 2) None 0 True []] else [])"

text \<open>The callable 1 cancels the events tagged \<open>a\<close>, those of the current batch too.\<close>

definition cancels_a :: prog where
  "cancels_a k kw now = (if k = 1 then [RemoveEvent (Some tag_a) False] else [])"

definition two_batches :: engine where
  "two_batches =
     init_engine\<lparr>events :=
       [mk_event 5 0 (UserCb 1) (Some tag_b) [],
        mk_event 5 1 (UserCb 3) (Some tag_a) [],
        mk_event 9 0 (UserCb 3) (Some tag_b) []]\<rparr>"

text \<open>
  C5 as it is stated fails: a callback cannot schedule at the current clock. Here the
  first event of the batch of time 5 calls \<open>scheduleAtAsn\<close> with time 5; the assertion
  of line 177 fails, the exception leaves the run loop, and the callable 2 is neither
  queued nor called.
\<close>

theorem schedule_at_clock_not_dispatched:
  "run_loop schedules_now 3 two_batches =
     Some (Raised AssertionError,
           two_batches\<lparr>asn := 5,
             events := [mk_event 5 1 (UserCb 3) (Some tag_a) [], mk_event 9 0 (UserCb 3) (Some tag_b) []],
             invoked := [Dispatched 5 (mk_event 5 0 (UserCb 1) (Some tag_b) [])]\<rparr>)"
  by code_simp

text \<open>The engine inside the batch of time 5, after the first event was popped.\<close>

definition in_batch :: engine where
  "in_batch =
     init_engine\<lparr>asn := 5,
       events := [mk_event 5 1 (UserCb 3) (Some tag_a) [], mk_event 9 0 (UserCb 3) (Some tag_b) []],
       invoked := [Dispatched 5 (mk_event 5 0 (UserCb 1) (Some tag_b) [])]\<rparr>"

definition after_cancel :: engine where
  "after_cancel = in_batch\<lparr>events := [mk_event 9 0 (UserCb 3) (Some tag_b) []]\<rparr>"

text \<open>
  C5, amended. While a callback runs, \<open>scheduleAtAsn\<close> at the current clock fails the
  assertion and leaves the engine as it was; a callback that makes such a call raises,
  and so does the batch that calls it. When a callback has called \<open>removeEvent\<close> with a
  tag and \<open>exceptCurrentASN\<close> false and has returned, no event with that tag is called in
  the rest of the batch. With \<open>exceptCurrentASN\<close> true, \<open>removeEvent\<close> keeps the
  events that are due at the current clock.
\<close>

theorem callback_at_current_clock:
  "exec_call (ScheduleAtAsn (asn e) c tg p exc kw) e = (Raised AssertionError, e) \<and>
   (ScheduleAtAsn (asn e) c tg p exc kw \<in> set (P k kw' (asn e)) \<longrightarrow>
      fst (invoke P (UserCb k) kw' e) = Raised AssertionError) \<and>
   (events x = ev # rest \<and> ev_asn ev = asn x \<and> ev_cb ev = UserCb k \<and>
    ScheduleAtAsn (asn x) c tg p exc kw \<in> set (P k (ev_kwargs ev) (asn x)) \<longrightarrow>
      fst (batch P x) = Raised AssertionError) \<and>
   (RemoveEvent tg False \<in> set (P k kw' (asn e)) \<and> invoke P (UserCb k) kw' e = (Normal, e1) \<and>
    batch P e1 = (st, e2) \<longrightarrow>
      (\<exists>ds. invoked e2 = invoked e1 @ dispatches ds \<and> (\<forall>d\<in>set ds. ev_tag d \<noteq> tg))) \<and>
   due (asn e) (events (removeEvent tg True e)) = due (asn e) (events e)"
proof (intro conjI impI)
  show "exec_call (ScheduleAtAsn (asn e) c tg p exc kw) e = (Raised AssertionError, e)"
    by (simp add: of_sum_def scheduleAtAsn_def)
next
  assume "ScheduleAtAsn (asn e) c tg p exc kw \<in> set (P k kw' (asn e))"
  then show "fst (invoke P (UserCb k) kw' e) = Raised AssertionError"
    by (simp add: invoke_def exec_calls_schedule_now)
next
  assume h: "events x = ev # rest \<and> ev_asn ev = asn x \<and> ev_cb ev = UserCb k \<and>
    ScheduleAtAsn (asn x) c tg p exc kw \<in> set (P k (ev_kwargs ev) (asn x))"
  then have "ScheduleAtAsn (asn (popped x)) c tg p exc kw \<in> set (P k (ev_kwargs ev) (asn (popped x)))"
    by (simp add: popped_def)
  then have "fst (invoke P (UserCb k) (ev_kwargs ev) (popped x)) = Raised AssertionError"
    by (simp add: invoke_def exec_calls_schedule_now)
  with h show "fst (batch P x) = Raised AssertionError"
    by (subst batch_unfold) (simp add: split_beta)
next
  assume h: "RemoveEvent tg False \<in> set (P k kw' (asn e)) \<and>
    invoke P (UserCb k) kw' e = (Normal, e1) \<and> batch P e1 = (st, e2)"
  then have ex: "exec_calls (P k kw' (asn e)) e = (Normal, e1)" by (simp add: invoke_def)
  from h have "none_due tg e \<or> RemoveEvent tg False \<in> set (P k kw' (asn e))" by blast
  with ex have nd: "none_due tg e1" by (rule exec_calls_none_due)
  from h batch_dispatch [of P e1 st e2] obtain ds
    where ds: "invoked e2 = invoked e1 @ map (Dispatched (asn e1)) ds"
      and sub: "subseq ds (due (asn e1) (events e1))" by blast
  from sub have mem: "\<forall>d\<in>set ds. d \<in> set (due (asn e1) (events e1))"
    by (auto elim: list_emb_set)
  then have "map (Dispatched (asn e1)) ds = dispatches ds"
    by (simp add: dispatches_def due_def)
  moreover from mem nd have "\<forall>d\<in>set ds. ev_tag d \<noteq> tg"
    by (auto simp: none_due_def due_def)
  ultimately show "\<exists>ds. invoked e2 = invoked e1 @ dispatches ds \<and> (\<forall>d\<in>set ds. ev_tag d \<noteq> tg)"
    using ds by auto
next
  show "due (asn e) (events (removeEvent tg True e)) = due (asn e) (events e)"
    by (simp add: events_removeEvent due_def removable_def conj_commute cong: conj_cong)
qed

theorem callback_at_current_clock_witness:
  "ScheduleAtAsn (asn in_batch) (UserCb 2) None 0 True [] \<in> set (schedules_now 1 [] (asn in_batch)) \<and>
   fst (invoke schedules_now (UserCb 1) [] in_batch) = Raised AssertionError \<and>
   RemoveEvent (Some tag_a) False \<in> set (cancels_a 1 [] (asn in_batch)) \<and>
   invoke cancels_a (UserCb 1) [] in_batch = (Normal, after_cancel) \<and>
   batch cancels_a after_cancel = (Normal, after_cancel) \<and>
   (\<exists>ds. invoked after_cancel = invoked after_cancel @ dispatches ds \<and>
         (\<forall>d\<in>set ds. ev_tag d \<noteq> Some tag_a))"
proof -
  have h1: "ScheduleAtAsn (asn in_batch) (UserCb 2) None 0 True [] \<in>
      set (schedules_now 1 [] (asn in_batch))"
    by (simp add: schedules_now_def)
  have h2: "RemoveEvent (Some tag_a) False \<in> set (cancels_a 1 [] (asn in_batch))"
    by (simp add: cancels_a_def)
  have h3: "invoke cancels_a (UserCb 1) [] in_batch = (Normal, after_cancel)" by code_simp
  have h4: "batch cancels_a after_cancel = (Normal, after_cancel)" by code_simp
  from callback_at_current_clock
    [of in_batch "UserCb 2" None 0 True "[]" schedules_now 1 "[]"] h1
  have r1: "fst (invoke schedules_now (UserCb 1) [] in_batch) = Raised AssertionError"
    by blast
  from callback_at_current_clock
    [of in_batch _ "Some tag_a" _ _ _ cancels_a 1 "[]" _ _ _ after_cancel Normal after_cancel]
    h2 h3 h4
  have r2: "\<exists>ds. invoked after_cancel = invoked after_cancel @ dispatches ds \<and>
         (\<forall>d\<in>set ds. ev_tag d \<noteq> Some tag_a)"
    by blast
  from h1 r1 h2 h3 h4 r2 show ?thesis by (intro conjI)
qed

subsection \<open>C6: how the run loop ends\<close>

text \<open>The test of line 131: on an empty queue the loop ends without an exception.\<close>

lemma run_loop_empty_queue:
  "events e = [] \<Longrightarrow> run_loop P (Suc n) e = Some (Normal, e)"
  by simp

text \<open>
  Lines 151 and 152: end hooks that make no call on the engine are all called, in the
  order of their registration.
\<close>

lemma end_hooks_in_order:
  assumes "\<forall>c\<in>set (endCb e). \<exists>k. c = UserCb k \<and> P k [] (asn e) = []"
  shows "call_hooks P endCb EndHook (Suc (length (endCb e) - i)) i e =
           Some (Normal, e\<lparr>invoked := invoked e @ map EndHook (drop i (endCb e))\<rparr>)"
  using assms
proof (induction "length (endCb e) - i" arbitrary: i e)
  case 0
  then show ?case by simp
next
  case (Suc m)
  let ?c = "endCb e ! i"
  let ?e1 = "e\<lparr>invoked := invoked e @ [EndHook ?c]\<rparr>"
  from Suc.hyps(2) have lt: "i < length (endCb e)" by simp
  then have "?c \<in> set (endCb e)" by simp
  with Suc.prems obtain k where k: "?c = UserCb k" "P k [] (asn e) = []" by blast
  then have inv: "invoke P ?c [] ?e1 = (Normal, ?e1)" by (simp add: invoke_idle)
  from Suc.hyps(2) have m: "m = length (endCb ?e1) - Suc i" by simp
  from Suc.prems have "\<forall>c\<in>set (endCb ?e1). \<exists>k. c = UserCb k \<and> P k [] (asn ?e1) = []" by simp
  from Suc.hyps(1) [OF m this]
  have ih: "call_hooks P endCb EndHook (Suc (length (endCb e) - Suc i)) (Suc i) ?e1 =
      Some (Normal, ?e1\<lparr>invoked := invoked ?e1 @ map EndHook (drop (Suc i) (endCb e))\<rparr>)"
    by simp
  from lt have d: "drop i (endCb e) = ?c # drop (Suc i) (endCb e)"
    by (simp add: Cons_nth_drop_Suc)
  from Suc.hyps(2) have s: "Suc (length (endCb e) - i) = Suc (Suc (length (endCb e) - Suc i))"
    by simp
  show ?case
    unfolding s using lt inv ih d by (simp add: Let_def)
qed

text \<open>
  A new engine with one end hook and one tagged event at time 3, and a new engine with
  one end hook and nothing queued.
\<close>

definition one_event :: engine where
  "one_event =
     init_engine\<lparr>endCb := [UserCb 9], events := [mk_event 3 0 (UserCb 1) (Some tag_a) []]\<rparr>"

definition only_end_hook :: engine where
  "only_end_hook = init_engine\<lparr>endCb := [UserCb 9]\<rparr>"

text \<open>
  C6, where the code departs from it. When the event that is popped is the last one of
  the queue, line 145 reads \<^verbatim>\<open>self.events[0]\<close> on the empty list: \<open>run\<close> ends with
  \<open>IndexError\<close> and the end hook is not called. So it is for a run that dispatches its
  only event, and for the run of a new engine under the default settings, whose only
  event is the end-of-simulation event that \<open>run\<close> itself schedules at time 101: it
  sets \<open>goOn\<close> to false, and the inner loop fails before line 126 tests it. The end
  hook is called when the queue is empty from the start.
\<close>

theorem last_event_raises_IndexError:
  "run idle join_cfg 5 one_event =
     Some (Raised IndexError,
           one_event\<lparr>asn := 3, events := [],
             invoked := [Dispatched 3 (mk_event 3 0 (UserCb 1) (Some tag_a) [])]\<rparr>) \<and>
   run idle default_cfg 5 only_end_hook =
     Some (Raised IndexError,
           only_end_hook\<lparr>asn := 101, goOn := False, events := [],
             invoked :=
               [Dispatched 101 (mk_event 101 0 ActionEndSim (Some (None, ''_actionEndSim'')) [])]\<rparr>) \<and>
   run idle join_cfg 5 only_end_hook =
     Some (Normal, only_end_hook\<lparr>invoked := [EndHook (UserCb 9)]\<rparr>)"
  by code_simp

subsection \<open>C7: pause and play\<close>

definition pause_tag :: tag where
  "pause_tag = (Some ''SimEngine'', ''_actionPauseSim'')"

text \<open>
  A new engine after \<open>pauseAtAsn(5)\<close>, the same after a further \<open>pauseAtAsn(3)\<close>, and
  an engine that has paused at time 5.
\<close>

definition pause_pending :: engine where
  "pause_pending = init_engine\<lparr>events := [mk_event 5 0 ActionPauseSim (Some pause_tag) []]\<rparr>"

definition pause_replaced :: engine where
  "pause_replaced = init_engine\<lparr>events := [mk_event 3 0 ActionPauseSim (Some pause_tag) []]\<rparr>"

definition paused :: engine where
  "paused = init_engine\<lparr>simPaused := True, asn := 5\<rparr>"

text \<open>
  C7 as it is stated fails: with a pause pending and not yet active, \<open>pauseAtAsn\<close> is
  not a no-op. It removes the pending pause event and schedules one at the new time.
\<close>

theorem pending_pause_is_replaced:
  "pauseAtAsn 5 init_engine = Inr pause_pending \<and> \<not> simPaused pause_pending \<and>
   pauseAtAsn 3 pause_pending = Inr pause_replaced \<and> pause_replaced \<noteq> pause_pending"
  by code_simp

text \<open>
  C7, amended. \<open>pauseAtAsn\<close> returns at once when \<open>simPaused\<close> is set. When it is not,
  \<open>pauseAtAsn\<close> at a time after the clock leaves its new event as the only pause event
  that is not due at the current clock, and keeps the pause events that are due at the
  current clock; at a time not after the clock it fails the assertion. \<open>play\<close> clears
  \<open>simPaused\<close> and releases the semaphore once when \<open>simPaused\<close> is set, and does
  nothing otherwise.
\<close>

theorem pause_and_play:
  "(simPaused e \<longrightarrow> pauseAtAsn a e = Inr e) \<and>
   (\<not> simPaused e \<and> asn e < a \<longrightarrow>
      (\<exists>e'. pauseAtAsn a e = Inr e' \<and>
         filter (\<lambda>ev. ev_tag ev = Some pause_tag \<and> ev_asn ev \<noteq> asn e) (events e') =
           [mk_event a 0 ActionPauseSim (Some pause_tag) []] \<and>
         filter (\<lambda>ev. ev_tag ev = Some pause_tag \<and> ev_asn ev = asn e) (events e') =
           filter (\<lambda>ev. ev_tag ev = Some pause_tag \<and> ev_asn ev = asn e) (events e))) \<and>
   (\<not> simPaused e \<and> a \<le> asn e \<longrightarrow> pauseAtAsn a e = Inl AssertionError) \<and>
   (simPaused e \<longrightarrow> play e = e\<lparr>simPaused := False, pauseSem := pauseSem e + 1\<rparr>) \<and>
   (\<not> simPaused e \<longrightarrow> play e = e)"
proof -
  have sch: "\<exists>e'. pauseAtAsn a e = Inr e' \<and>
         filter (\<lambda>ev. ev_tag ev = Some pause_tag \<and> ev_asn ev \<noteq> asn e) (events e') =
           [mk_event a 0 ActionPauseSim (Some pause_tag) []] \<and>
         filter (\<lambda>ev. ev_tag ev = Some pause_tag \<and> ev_asn ev = asn e) (events e') =
           filter (\<lambda>ev. ev_tag ev = Some pause_tag \<and> ev_asn ev = asn e) (events e)"
    if np: "\<not> simPaused e" and a: "asn e < a"
  proof -
    from a obtain e' where
      s: "scheduleAtAsn a ActionPauseSim (Some pause_tag) 0 True [] e = Inr e'"
      by (cases "scheduleAtAsn a ActionPauseSim (Some pause_tag) 0 True [] e")
         (simp_all add: scheduleAtAsn_Inl)
    from scheduleAtAsn_tagged(1) [OF s]
    have one: "filter (\<lambda>ev. ev_tag ev = Some pause_tag \<and> ev_asn ev \<noteq> asn e) (events e') =
        [mk_event a 0 ActionPauseSim (Some pause_tag) []]"
      by simp
    from scheduleAtAsn_Inr [OF s]
    have ev: "events e' = enqueue (mk_event a 0 ActionPauseSim (Some pause_tag) [])
                (untag (Some pause_tag) True (asn e) (events e))"
      by simp
    have "due (asn e) (events e') = due (asn e) (untag (Some pause_tag) True (asn e) (events e))"
      unfolding ev using a by (simp add: due_enqueue mk_event_def)
    then have "filter (\<lambda>ev. ev_tag ev = Some pause_tag) (due (asn e) (events e')) =
          filter (\<lambda>ev. ev_tag ev = Some pause_tag) (due (asn e) (events e))"
      by (simp add: due_def untag_def removable_def conj_commute cong: conj_cong)
    then have "filter (\<lambda>ev. ev_tag ev = Some pause_tag \<and> ev_asn ev = asn e) (events e') =
           filter (\<lambda>ev. ev_tag ev = Some pause_tag \<and> ev_asn ev = asn e) (events e)"
      by (simp add: due_def conj_commute)
    with s one np show ?thesis by (simp add: pauseAtAsn_def pause_tag_def)
  qed
  show ?thesis
    using sch
    by (auto simp: pauseAtAsn_def play_def actionResumeSim_def scheduleAtAsn_def)
qed

theorem pause_and_play_witness:
  "simPaused paused \<and> pauseAtAsn 9 paused = Inr paused \<and>
   play paused = paused\<lparr>simPaused := False, pauseSem := pauseSem paused + 1\<rparr> \<and>
   \<not> simPaused pause_pending \<and> asn pause_pending < 3 \<and> play pause_pending = pause_pending \<and>
   (\<exists>e'. pauseAtAsn 3 pause_pending = Inr e' \<and>
      filter (\<lambda>ev. ev_tag ev = Some pause_tag \<and> ev_asn ev \<noteq> asn pause_pending) (events e') =
        [mk_event 3 0 ActionPauseSim (Some pause_tag) []])"
proof -
  have h1: "simPaused paused" by (simp add: paused_def)
  have h2: "\<not> simPaused pause_pending" "asn pause_pending < 3"
    by (simp_all add: pause_pending_def init_engine_def)
  from pause_and_play [of paused 9] pause_and_play [of pause_pending 3] h1 h2
  show ?thesis by blast
qed

subsection \<open>C8: destroy and construct again\<close>

text \<open>Collaborators that leave the engine's attributes as lines 63 to 70 set them.\<close>

definition no_boot :: "engine \<Rightarrow> outcome" where
  "no_boot e = (Normal, e)"

text \<open>
  A process whose engine has run: its clock is 4, events are queued, an end hook is
  registered and \<open>goOn\<close> is false.
\<close>

definition used_engine :: engine where
  "used_engine = mid_batch\<lparr>goOn := False, endCb := [UserCb 9]\<rparr>"

definition used_process :: process where
  "used_process =
     \<lparr>cls_instance = Some 0, cls_init = False,
      heap = [\<lparr>d_instance = None, d_init = Some True, d_engine = Some used_engine\<rparr>]\<rparr>"

definition fresh_process :: process where
  "fresh_process =
     \<lparr>cls_instance = Some 0, cls_init = False,
      heap = [\<lparr>d_instance = None, d_init = Some True, d_engine = Some init_engine\<rparr>]\<rparr>"

text \<open>
  What holds of the claim: \<open>destroy\<close> empties the \<^verbatim>\<open>__dict__\<close> of the instance, and
  the next construction sets the engine's attributes anew from lines 63 to 70, whatever
  they were, because \<open>_init\<close> is then read from the class.
\<close>

lemma destroy_clears_attributes:
  assumes "d_engine (obj w r) = Some e"
  shows "destroy r w = (Normal, w\<lparr>heap := (heap w)[r := empty_dict]\<rparr>)"
  using assms by (simp add: destroy_def Let_def)

lemma construct_after_destroy:
  assumes "cls_instance w = Some r" and "r < length (heap w)" and "\<not> cls_init w"
    and "d_engine (obj w r) = Some e"
  shows "construct boot False (snd (destroy r w)) =
           (fst (boot init_engine), r,
            w\<lparr>heap := (heap w)[r :=
                 \<lparr>d_instance = None, d_init = Some True,
                  d_engine = Some (snd (boot init_engine))\<rparr>]\<rparr>)"
  using assms
  by (simp add: destroy_clears_attributes construct_def new_def init_def get_init_def obj_def
      empty_dict_def split_beta)

text \<open>
  C8, where the code departs from it. Line 101 writes \<open>_instance\<close> in the \<^verbatim>\<open>__dict__\<close>
  of the instance, which line 103 deletes; the class attribute, which is the registry
  slot that \<open>__new__\<close> tests, still holds the destroyed object. The slot is not
  freed: the next construction creates no object, it returns the destroyed one and
  initialises it again, with clock 0 and an empty queue.
\<close>

theorem destroy_keeps_registry_slot:
  "construct no_boot False start_process = (Normal, 0, fresh_process) \<and>
   destroy 0 used_process = (Normal, used_process\<lparr>heap := [empty_dict]\<rparr>) \<and>
   cls_instance (snd (destroy 0 used_process)) = Some 0 \<and>
   get_instance (snd (destroy 0 used_process)) 0 = Some 0 \<and>
   construct no_boot False (snd (destroy 0 used_process)) = (Normal, 0, fresh_process) \<and>
   construct no_boot True (snd (destroy 0 used_process)) =
     (Raised EnvironmentError, 0, used_process\<lparr>heap := [empty_dict]\<rparr>)"
  by code_simp

subsection \<open>C9: the time scheduleIn computes\<close>

text \<open>
  An engine at clock 1, and the largest double below 1, which Python writes
  \<^verbatim>\<open>0.9999999999999999\<close>.
\<close>

definition clock_one :: engine where
  "clock_one = init_engine\<lparr>asn := 1\<rparr>"

definition almost_one :: rat where
  "almost_one = 1 - 1 / 2 ^ 53"

text \<open>
  C9 as it is stated fails. At clock 1, with slot duration 1 and the delay
  \<^verbatim>\<open>0.9999999999999999\<close>, the quotient is the delay itself and its floor is 0, so the
  claim's time is 1, which \<open>scheduleAtAsn\<close> refuses; but the float sum of 1 and the
  quotient rounds to 2.0, and \<open>scheduleIn\<close> schedules the event at time 2. And
  \<^verbatim>\<open>int\<close> truncates toward zero where the floor rounds down: at clock 0 the delay
  \<^verbatim>\<open>-1.5\<close> gives the time -1, not -2.
\<close>

theorem scheduleIn_rounds_up:
  "fl almost_one = Some almost_one \<and>
   scheduleIn_asn 1 almost_one 1 = Inr 2 \<and>
   (1::int) + \<lfloor>almost_one / 1\<rfloor> = 1 \<and>
   scheduleIn almost_one (UserCb 1) (Some tag_a) 0 True [] default_cfg clock_one =
     Inr (clock_one\<lparr>events := [mk_event 2 0 (UserCb 1) (Some tag_a) []]\<rparr>) \<and>
   scheduleAtAsn (1 + \<lfloor>almost_one / 1\<rfloor>) (UserCb 1) (Some tag_a) 0 True [] clock_one =
     Inl AssertionError \<and>
   scheduleIn_asn 0 (- 3 / 2) 1 = Inr (- 1) \<and>
   (0::int) + \<lfloor>(- 3 / 2 :: rat) / 1\<rfloor> = - 2"
  by code_simp

text \<open>
  C9, amended. \<open>scheduleIn\<close> either raises while it computes the time, or calls
  \<open>scheduleAtAsn\<close> with the time of line 169 and its own callback, tag, priority, flag
  and arguments. When the slot duration is positive, the clock is not negative, and the
  conversions, the division and the addition of line 169 are exact (each value is a
  double), the call is \<open>scheduleAtAsn\<close> at the clock plus the floor of the delay divided
  by the slot duration.
\<close>

theorem scheduleIn_exact_arithmetic:
  "(0 < slotDuration cfg \<and> 0 \<le> asn e \<and>
    fl delay = Some delay \<and> fl (slotDuration cfg) = Some (slotDuration cfg) \<and>
    fl (delay / slotDuration cfg) = Some (delay / slotDuration cfg) \<and>
    fl (of_int (asn e)) = Some (of_int (asn e)) \<and>
    fl (of_int (asn e) + delay / slotDuration cfg) =
      Some (of_int (asn e) + delay / slotDuration cfg) \<longrightarrow>
      scheduleIn delay c uniqueTag priority exceptCurrentASN kw cfg e =
        scheduleAtAsn (asn e + \<lfloor>delay / slotDuration cfg\<rfloor>) c uniqueTag priority
          exceptCurrentASN kw e) \<and>
   (scheduleIn_asn (asn e) delay (slotDuration cfg) = Inr a \<longrightarrow>
      scheduleIn delay c uniqueTag priority exceptCurrentASN kw cfg e =
        scheduleAtAsn a c uniqueTag priority exceptCurrentASN kw e) \<and>
   (scheduleIn_asn (asn e) delay (slotDuration cfg) = Inl err \<longrightarrow>
      scheduleIn delay c uniqueTag priority exceptCurrentASN kw cfg e = Inl err)"
proof (intro conjI impI)
  assume h: "0 < slotDuration cfg \<and> 0 \<le> asn e \<and>
    fl delay = Some delay \<and> fl (slotDuration cfg) = Some (slotDuration cfg) \<and>
    fl (delay / slotDuration cfg) = Some (delay / slotDuration cfg) \<and>
    fl (of_int (asn e)) = Some (of_int (asn e)) \<and>
    fl (of_int (asn e) + delay / slotDuration cfg) =
      Some (of_int (asn e) + delay / slotDuration cfg)"
  let ?q = "delay / slotDuration cfg"
  let ?x = "of_int (asn e) + ?q"
  from h have t: "scheduleIn_asn (asn e) delay (slotDuration cfg) =
      Inr (if 0 \<le> ?x then \<lfloor>?x\<rfloor> else \<lceil>?x\<rceil>)"
    by (simp add: scheduleIn_asn_def py_float_def float_div_def float_add_def py_int_def)
  show "scheduleIn delay c uniqueTag priority exceptCurrentASN kw cfg e =
        scheduleAtAsn (asn e + \<lfloor>?q\<rfloor>) c uniqueTag priority exceptCurrentASN kw e"
  proof (cases "0 \<le> ?x")
    case True
    have "\<lfloor>?x\<rfloor> = asn e + \<lfloor>?q\<rfloor>" by simp
    with True t show ?thesis by (simp add: scheduleIn_def)
  next
    case False
    then have "\<lceil>?x\<rceil> \<le> 0" by (simp add: ceiling_le_iff)
    with h have c1: "\<not> asn e < \<lceil>?x\<rceil>" by linarith
    have "rat_of_int \<lfloor>?x\<rfloor> \<le> ?x" by (rule of_int_floor_le)
    with False have "rat_of_int \<lfloor>?x\<rfloor> < 0" by linarith
    then have "\<lfloor>?x\<rfloor> < 0" by (simp only: of_int_less_0_iff)
    moreover have "\<lfloor>?x\<rfloor> = asn e + \<lfloor>?q\<rfloor>" by simp
    ultimately have "asn e + \<lfloor>?q\<rfloor> < 0" by (simp only:)
    with h have c2: "\<not> asn e < asn e + \<lfloor>?q\<rfloor>" by linarith
    from False t c1 c2 show ?thesis
      by (simp add: scheduleIn_def scheduleAtAsn_def)
  qed
qed (simp_all add: scheduleIn_def)

theorem scheduleIn_exact_arithmetic_witness:
  "0 < slotDuration join_cfg \<and> 0 \<le> asn mid_batch \<and>
   fl (1 / 2) = Some (1 / 2) \<and> fl (slotDuration join_cfg) = Some (slotDuration join_cfg) \<and>
   fl (1 / 2 / slotDuration join_cfg) = Some (1 / 2 / slotDuration join_cfg) \<and>
   fl (of_int (asn mid_batch)) = Some (of_int (asn mid_batch)) \<and>
   fl (of_int (asn mid_batch) + 1 / 2 / slotDuration join_cfg) =
     Some (of_int (asn mid_batch) + 1 / 2 / slotDuration join_cfg) \<and>
   scheduleIn_asn (asn mid_batch) (1 / 2) (slotDuration join_cfg) = Inr 6 \<and>
   scheduleIn (1 / 2) (UserCb 5) None 0 True [] join_cfg mid_batch =
     scheduleAtAsn (asn mid_batch + \<lfloor>1 / 2 / slotDuration join_cfg\<rfloor>) (UserCb 5) None 0 True []
       mid_batch \<and>
   scheduleIn (1 / 2) (UserCb 5) None 0 True [] join_cfg mid_batch =
     scheduleAtAsn 6 (UserCb 5) None 0 True [] mid_batch"
proof -
  have h: "0 < slotDuration join_cfg \<and> 0 \<le> asn mid_batch \<and>
   fl (1 / 2) = Some (1 / 2) \<and> fl (slotDuration join_cfg) = Some (slotDuration join_cfg) \<and>
   fl (1 / 2 / slotDuration join_cfg) = Some (1 / 2 / slotDuration join_cfg) \<and>
   fl (of_int (asn mid_batch)) = Some (of_int (asn mid_batch)) \<and>
   fl (of_int (asn mid_batch) + 1 / 2 / slotDuration join_cfg) =
     Some (of_int (asn mid_batch) + 1 / 2 / slotDuration join_cfg)"
    by code_simp
  have a: "scheduleIn_asn (asn mid_batch) (1 / 2) (slotDuration join_cfg) = Inr 6"
    by code_simp
  note t = scheduleIn_exact_arithmetic
    [of join_cfg mid_batch "1 / 2" "UserCb 5" None 0 True "[]" 6]
  from t h have r1: "scheduleIn (1 / 2) (UserCb 5) None 0 True [] join_cfg mid_batch =
     scheduleAtAsn (asn mid_batch + \<lfloor>1 / 2 / slotDuration join_cfg\<rfloor>) (UserCb 5) None 0 True []
       mid_batch"
    by blast
  from t a have r2: "scheduleIn (1 / 2) (UserCb 5) None 0 True [] join_cfg mid_batch =
     scheduleAtAsn 6 (UserCb 5) None 0 True [] mid_batch"
    by blast
  from h a r1 r2 show ?thesis by (intro conjI) blast+
qed

subsection \<open>C10: the tag of the first event of a batch\<close>

text \<open>
  Two events at time 5, the second one untagged, then the end-of-simulation event at
  time 7 and an event at time 9.
\<close>

definition untagged_second :: engine where
  "untagged_second =
     init_engine\<lparr>events :=
       [mk_event 5 0 (UserCb 1) (Some tag_a) [],
        mk_event 5 0 (UserCb 2) None [],
        mk_event 7 0 ActionEndSim (Some (None, ''_actionEndSim'')) [],
        mk_event 9 0 (UserCb 3) (Some tag_b) []]\<rparr>"

text \<open>
  C10 as it is stated fails: an untagged event that is not the first of its batch is
  dispatched. Here the loop ends normally after the events of times 5 and 7, and the
  second call is that of the untagged event.
\<close>

theorem untagged_event_dispatched:
  "run_loop idle 3 untagged_second =
     Some (Normal,
           untagged_second\<lparr>asn := 7, goOn := False,
             events := [mk_event 9 0 (UserCb 3) (Some tag_b) []],
             invoked :=
               [Dispatched 5 (mk_event 5 0 (UserCb 1) (Some tag_a) []),
                Dispatched 5 (mk_event 5 0 (UserCb 2) None []),
                Dispatched 7 (mk_event 7 0 ActionEndSim (Some (None, ''_actionEndSim'')) [])]\<rparr>)"
  by code_simp

text \<open>
  C10, amended. When the loop of line 126 goes round with an untagged event first in the
  queue, line 137 raises \<open>TypeError\<close> and nothing is dispatched: the engine is as it
  was. So the first event of every batch must carry a pair as its tag.
\<close>

theorem untagged_head_raises_TypeError:
  "goOn e \<Longrightarrow> events e = ev # rest \<Longrightarrow> ev_tag ev = None \<Longrightarrow>
     run_loop P (Suc n) e = Some (Raised TypeError, e)"
  by simp

theorem untagged_head_raises_TypeError_witness:
  "goOn mid_batch_untagged_head \<and>
   events mid_batch_untagged_head =
     mk_event 6 0 (UserCb 2) None [] # [mk_event 9 0 (UserCb 3) (Some tag_b) []] \<and>
   ev_tag (mk_event 6 0 (UserCb 2) None []) = None \<and>
   run_loop idle (Suc 0) mid_batch_untagged_head = Some (Raised TypeError, mid_batch_untagged_head)"
proof -
  have h1: "goOn mid_batch_untagged_head"
    by (simp add: mid_batch_untagged_head_def init_engine_def)
  have h2: "events mid_batch_untagged_head =
      mk_event 6 0 (UserCb 2) None [] # [mk_event 9 0 (UserCb 3) (Some tag_b) []]"
    by (simp add: mid_batch_untagged_head_def)
  have h3: "ev_tag (mk_event 6 0 (UserCb 2) None []) = None"
    by (simp add: mk_event_def)
  from untagged_head_raises_TypeError [OF h1 h2 h3, of idle 0] h1 h2 h3 show ?thesis
    by simp
qed

end
